theory Spec2Isabelle
  imports Main
begin

section \<open>Timezone Converter API: a shallow embedding of \<open>src/api/main.py\<close>\<close>

text \<open>
  The service is a thin wrapper around three libraries: the web framework (request
  validation and routing), Python's \<open>datetime\<close> (\<open>strptime\<close>, \<open>strftime\<close>, arithmetic)
  and \<open>pytz\<close> (the timezone table, \<open>localize\<close>, \<open>fromutc\<close>). The handlers are embedded
  as written; the library calls they make are embedded from the libraries' documented
  behaviour and reference implementations. The timezone table itself is data that does
  not belong to the repository and is a parameter \<open>db\<close> of every operation.

  Strings are lists of 8-bit characters, read as the code points 0..255.
\<close>

subsection \<open>Characters\<close>

definition code :: "char \<Rightarrow> nat" where
  "code c = of_char c"

definition between :: "char \<Rightarrow> char \<Rightarrow> char \<Rightarrow> bool" where
  \<comment> \<open>the regular-expression class \<open>[lo-hi]\<close>\<close>
  "between lo hi c \<longleftrightarrow> code lo \<le> code c \<and> code c \<le> code hi"

definition is_digit :: "char \<Rightarrow> bool" where
  \<comment> \<open>\<open>\d\<close>: the only decimal digits below code point 256 are \<open>0\<close>..\<open>9\<close>\<close>
  "is_digit c \<longleftrightarrow> between CHR ''0'' CHR ''9'' c"

definition digit_val :: "char \<Rightarrow> nat" where
  "digit_val c = code c - 48"

definition is_space :: "char \<Rightarrow> bool" where
  \<comment> \<open>\<open>\s\<close> on \<open>str\<close>: tab, newline, vertical tab, form feed, carriage return, the
      separators 0x1c..0x1f, space, 0x85 and 0xa0\<close>
  "is_space c \<longleftrightarrow> (9 \<le> code c \<and> code c \<le> 13) \<or> (28 \<le> code c \<and> code c \<le> 32)
                 \<or> code c = 133 \<or> code c = 160"

definition to_upper :: "char \<Rightarrow> char" where
  \<comment> \<open>\<open>str.upper\<close> on the ASCII letters\<close>
  "to_upper c = (if between CHR ''a'' CHR ''z'' c then char_of (code c - 32) else c)"

subsection \<open>Exceptions\<close>

datatype exn =
    ValueError string
  | UnknownTimeZoneError string
  | OverflowError string

definition hex_digit :: "nat \<Rightarrow> char" where
  "hex_digit n = (if n < 10 then char_of (48 + n) else char_of (87 + n))"

definition repr_char :: "char \<Rightarrow> char \<Rightarrow> string" where
  "repr_char q c =
     (if c = q \<or> c = CHR 0x5C then [CHR 0x5C, c]
      else if code c = 9 then [CHR 0x5C, CHR ''t'']
      else if code c = 10 then [CHR 0x5C, CHR ''n'']
      else if code c = 13 then [CHR 0x5C, CHR ''r'']
      else if code c < 32 \<or> (127 \<le> code c \<and> code c \<le> 160) \<or> code c = 173
        then [CHR 0x5C, CHR ''x'', hex_digit (code c div 16), hex_digit (code c mod 16)]
      else [c])"

definition repr :: "string \<Rightarrow> string" where
  \<comment> \<open>\<open>repr\<close> of a \<open>str\<close>: single quotes unless the text has a single and no double quote\<close>
  "repr s =
     (let q = (if CHR 0x27 \<in> set s \<and> CHR 0x22 \<notin> set s then CHR 0x22 else CHR 0x27)
      in [q] @ concat (map (repr_char q) s) @ [q])"

fun str :: "exn \<Rightarrow> string" where
  \<comment> \<open>\<open>str(e)\<close>; \<open>UnknownTimeZoneError\<close> is a \<open>KeyError\<close>, whose text is the \<open>repr\<close> of its key\<close>
  "str (ValueError m) = m"
| "str (UnknownTimeZoneError z) = repr z"
| "str (OverflowError m) = m"

definition bind_exn :: "exn + 'a \<Rightarrow> ('a \<Rightarrow> exn + 'b) \<Rightarrow> exn + 'b" where
  "bind_exn m f = (case m of Inl e \<Rightarrow> Inl e | Inr x \<Rightarrow> f x)"

subsection \<open>The proleptic Gregorian calendar of \<open>datetime\<close>\<close>

definition MAXORDINAL :: int where
  "MAXORDINAL = 3652059"

definition is_leap :: "int \<Rightarrow> bool" where
  "is_leap year \<longleftrightarrow> year mod 4 = 0 \<and> (year mod 100 \<noteq> 0 \<or> year mod 400 = 0)"

definition days_before_year :: "int \<Rightarrow> int" where
  "days_before_year year = (let y = year - 1 in y * 365 + y div 4 - y div 100 + y div 400)"

definition DAYS_IN_MONTH :: "int list" where
  "DAYS_IN_MONTH = [-1, 31, 28, 31, 30, 31, 30, 31, 31, 30, 31, 30, 31]"

definition DAYS_BEFORE_MONTH :: "int list" where
  "DAYS_BEFORE_MONTH = [-1, 0, 31, 59, 90, 120, 151, 181, 212, 243, 273, 304, 334]"

definition days_in_month :: "int \<Rightarrow> int \<Rightarrow> int" where
  "days_in_month year month =
     (if month = 2 \<and> is_leap year then 29 else DAYS_IN_MONTH ! nat month)"

definition days_before_month :: "int \<Rightarrow> int \<Rightarrow> int" where
  "days_before_month year month =
     DAYS_BEFORE_MONTH ! nat month + (if month > 2 \<and> is_leap year then 1 else 0)"

definition ymd2ord :: "int \<Rightarrow> int \<Rightarrow> int \<Rightarrow> int" where
  \<comment> \<open>called on checked dates only: \<open>1 \<le> month \<le> 12\<close>, \<open>1 \<le> day \<le> days_in_month\<close>\<close>
  "ymd2ord year month day = days_before_year year + days_before_month year month + day"

definition DI400Y :: int where "DI400Y = 146097"
definition DI100Y :: int where "DI100Y = 36524"
definition DI4Y :: int where "DI4Y = 1461"

definition ord2ymd :: "int \<Rightarrow> int \<times> int \<times> int" where
  "ord2ymd n0 =
     (let n = n0 - 1;
          n400 = n div DI400Y; n = n mod DI400Y;
          year = n400 * 400 + 1;
          n100 = n div DI100Y; n = n mod DI100Y;
          n4 = n div DI4Y; n = n mod DI4Y;
          n1 = n div 365; n = n mod 365;
          year = year + n100 * 100 + n4 * 4 + n1
      in if n1 = 4 \<or> n100 = 4 then (year - 1, 12, 31)
         else
           let leapyear = (n1 = 3 \<and> (n4 \<noteq> 24 \<or> n100 = 3));
               month = (n + 50) div 32;
               preceding = DAYS_BEFORE_MONTH ! nat month
                             + (if month > 2 \<and> leapyear then 1 else 0)
           in if preceding > n
              then let month = month - 1;
                       preceding = preceding - (DAYS_IN_MONTH ! nat month
                                     + (if month = 2 \<and> leapyear then 1 else 0))
                   in (year, month, n - preceding + 1)
              else (year, month, n - preceding + 1))"

subsection \<open>Naive datetimes\<close>

text \<open>
  A naive \<open>datetime\<close> is represented by the number of seconds since
  \<open>0001-01-01 00:00:00\<close>; \<open>datetime\<close> itself computes on the pair (ordinal day, second
  of the day). The fields are recovered with \<open>ord2ymd\<close>. Every value a \<open>datetime\<close>
  object can hold lies in \<open>0 \<le> x < MAXORDINAL * 86400\<close>; arithmetic that leaves the
  range raises \<open>OverflowError\<close>.
\<close>

type_synonym naive = int

definition in_range :: "naive \<Rightarrow> bool" where
  "in_range x \<longleftrightarrow> 0 \<le> x \<and> x < MAXORDINAL * 86400"

definition add_timedelta :: "naive \<Rightarrow> int \<Rightarrow> exn + naive" where
  \<comment> \<open>\<open>dt + timedelta(seconds=d)\<close>\<close>
  "add_timedelta x d =
     (if in_range (x + d) then Inr (x + d) else Inl (OverflowError ''date value out of range''))"

definition digit_char :: "nat \<Rightarrow> char" where
  "digit_char n = char_of (48 + n)"

fun zdec :: "nat \<Rightarrow> nat \<Rightarrow> string" where
  \<comment> \<open>\<open>"%0wd" % n\<close>: decimal, zero-padded to width \<open>w\<close>; \<open>zdec 0\<close> is \<open>"%d"\<close>\<close>
  "zdec w n =
     (if n < 10 then replicate (w - 1) CHR ''0'' @ [digit_char n]
      else zdec (w - 1) (n div 10) @ [digit_char (n mod 10)])"

declare zdec.simps [simp del]

definition datetime :: "nat \<Rightarrow> nat \<Rightarrow> nat \<Rightarrow> nat \<Rightarrow> nat \<Rightarrow> exn + naive" where
  \<comment> \<open>the constructor \<open>datetime(year, month, day, hour, minute)\<close> with its range checks\<close>
  "datetime year month day hour minute =
     (if year < 1 \<or> year > 9999
        then Inl (ValueError (''year '' @ zdec 0 year @ '' is out of range''))
      else if month < 1 \<or> month > 12 then Inl (ValueError ''month must be in 1..12'')
      else if day < 1 \<or> int day > days_in_month (int year) (int month)
        then Inl (ValueError ''day is out of range for month'')
      else if hour > 23 then Inl (ValueError ''hour must be in 0..23'')
      else if minute > 59 then Inl (ValueError ''minute must be in 0..59'')
      else Inr ((ymd2ord (int year) (int month) (int day) - 1) * 86400
                  + int hour * 3600 + int minute * 60))"

subsection \<open>\<open>datetime.strptime(v, "%Y-%m-%d %H:%M")\<close>\<close>

text \<open>
  \<open>_strptime\<close> turns the format into the regular expression
  \<^verbatim>\<open>(?P<Y>\d\d\d\d)-(?P<m>1[0-2]|0[1-9]|[1-9])-(?P<d>3[0-1]|[1-2]\d|0[1-9]|[1-9]| [1-9])\s+(?P<H>2[0-3]|[0-1]\d|\d):(?P<M>[0-5]\d|\d)\<close>
  (the blank of the format becomes \<open>\s+\<close>), matches it at the start of the text with
  \<open>re.match\<close>, and rejects the text when the first match does not end where the text
  ends. A regular expression is embedded as the list of its matches in the order the
  backtracking matcher tries them: each match is the value read and the rest of the text.
\<close>

fun rx_one :: "(char \<Rightarrow> bool) \<Rightarrow> string \<Rightarrow> (nat \<times> string) list" where
  "rx_one p (a # r) = (if p a then [(digit_val a, r)] else [])"
| "rx_one p [] = []"

fun rx_two :: "(char \<Rightarrow> bool) \<Rightarrow> (char \<Rightarrow> bool) \<Rightarrow> string \<Rightarrow> (nat \<times> string) list" where
  "rx_two p q (a # b # r) = (if p a \<and> q b then [(10 * digit_val a + digit_val b, r)] else [])"
| "rx_two p q _ = []"

fun rx_blank_one :: "(char \<Rightarrow> bool) \<Rightarrow> string \<Rightarrow> (nat \<times> string) list" where
  \<comment> \<open>a blank and one digit; \<open>int\<close> ignores the blank\<close>
  "rx_blank_one q (a # b # r) = (if a = CHR '' '' \<and> q b then [(digit_val b, r)] else [])"
| "rx_blank_one q _ = []"

fun rx_lit :: "char \<Rightarrow> string \<Rightarrow> string list" where
  "rx_lit c (a # r) = (if a = c then [r] else [])"
| "rx_lit c [] = []"

fun rx_Y :: "string \<Rightarrow> (nat \<times> string) list" where
  "rx_Y (a # b # c # d # r) =
     (if is_digit a \<and> is_digit b \<and> is_digit c \<and> is_digit d
      then [(1000 * digit_val a + 100 * digit_val b + 10 * digit_val c + digit_val d, r)]
      else [])"
| "rx_Y _ = []"

definition rx_m :: "string \<Rightarrow> (nat \<times> string) list" where
  "rx_m s = rx_two (\<lambda>c. c = CHR ''1'') (between CHR ''0'' CHR ''2'') s
          @ rx_two (\<lambda>c. c = CHR ''0'') (between CHR ''1'' CHR ''9'') s
          @ rx_one (between CHR ''1'' CHR ''9'') s"

definition rx_d :: "string \<Rightarrow> (nat \<times> string) list" where
  "rx_d s = rx_two (\<lambda>c. c = CHR ''3'') (between CHR ''0'' CHR ''1'') s
          @ rx_two (between CHR ''1'' CHR ''2'') is_digit s
          @ rx_two (\<lambda>c. c = CHR ''0'') (between CHR ''1'' CHR ''9'') s
          @ rx_one (between CHR ''1'' CHR ''9'') s
          @ rx_blank_one (between CHR ''1'' CHR ''9'') s"

definition rx_H :: "string \<Rightarrow> (nat \<times> string) list" where
  "rx_H s = rx_two (\<lambda>c. c = CHR ''2'') (between CHR ''0'' CHR ''3'') s
          @ rx_two (between CHR ''0'' CHR ''1'') is_digit s
          @ rx_one is_digit s"

definition rx_M :: "string \<Rightarrow> (nat \<times> string) list" where
  "rx_M s = rx_two (between CHR ''0'' CHR ''5'') is_digit s
          @ rx_one is_digit s"

definition rx_spaces :: "string \<Rightarrow> string list" where
  \<comment> \<open>\<open>\s+\<close> is greedy: the longest run of blanks first, then shorter ones\<close>
  "rx_spaces s = map (\<lambda>k. drop k s) (rev [1 ..< Suc (length (takeWhile is_space s))])"

definition format_regex :: "string \<Rightarrow> ((nat \<times> nat \<times> nat \<times> nat \<times> nat) \<times> string) list" where
  "format_regex s =
     List.bind (rx_Y s) (\<lambda>(Y, s).
     List.bind (rx_lit CHR ''-'' s) (\<lambda>s.
     List.bind (rx_m s) (\<lambda>(m, s).
     List.bind (rx_lit CHR ''-'' s) (\<lambda>s.
     List.bind (rx_d s) (\<lambda>(d, s).
     List.bind (rx_spaces s) (\<lambda>s.
     List.bind (rx_H s) (\<lambda>(H, s).
     List.bind (rx_lit CHR '':'' s) (\<lambda>s.
     List.bind (rx_M s) (\<lambda>(M, s). [((Y, m, d, H, M), s)])))))))))"

definition strptime :: "string \<Rightarrow> exn + naive" where
  "strptime data_string =
     (case format_regex data_string of
        [] \<Rightarrow> Inl (ValueError (''time data '' @ repr data_string @ '' does not match format ''
                                @ repr ''%Y-%m-%d %H:%M''))
      | ((Y, m, d, H, M), rest) # _ \<Rightarrow>
          if rest \<noteq> [] then Inl (ValueError (''unconverted data remains: '' @ rest))
          else datetime Y m d H M)"

subsection \<open>\<open>strftime("%Y-%m-%d %H:%M")\<close>\<close>

text \<open>
  \<open>strftime\<close> hands the fields to the C library. The C libraries agree on \<open>%m\<close>,
  \<open>%d\<close>, \<open>%H\<close> and \<open>%M\<close> (two digits, zero-padded) and differ on \<open>%Y\<close> for years
  below 1000: some pad the year to four digits, glibc prints it without padding. Which of
  the two the platform does is therefore a parameter.
\<close>

datatype platform = PadsYear | PlainYear

fun year_width :: "platform \<Rightarrow> nat" where
  "year_width PadsYear = 4"
| "year_width PlainYear = 0"

definition strftime :: "platform \<Rightarrow> naive \<Rightarrow> string" where
  "strftime pf x =
     (let (year, month, day) = ord2ymd (x div 86400 + 1);
          hour = (x mod 86400) div 3600;
          minute = (x mod 3600) div 60
      in zdec (year_width pf) (nat year) @ ''-'' @ zdec 2 (nat month) @ ''-'' @ zdec 2 (nat day)
         @ '' '' @ zdec 2 (nat hour) @ '':'' @ zdec 2 (nat minute))"

subsection \<open>\<open>pytz\<close>: the timezone table and the zone objects\<close>

record ttinfo =
  utcoffset :: int
  dst :: int
  tzname :: string

text \<open>
  What \<open>pytz\<close> builds from a zone file: a zone without transitions has one fixed offset
  (\<open>StaticTzInfo\<close>); any other zone (\<open>DstTzInfo\<close>) has the list of its transitions,
  each the UTC time of the transition and the \<open>(utcoffset, dst, tzname)\<close> in force from
  then on, in increasing order of time, the first one standing for all earlier times. The
  list is never empty, so it is given as its first entry and the rest. Times and offsets
  are in seconds; \<open>pytz\<close> rounds every offset to whole minutes and keeps it strictly
  between minus and plus one day.
\<close>

datatype zone =
    StaticZone int string
  | DstZone "naive \<times> ttinfo" "(naive \<times> ttinfo) list"

type_synonym tzdb = "(string \<times> zone) list"

definition all_timezones :: "tzdb \<Rightarrow> string list" where
  \<comment> \<open>the names \<open>pytz.all_timezones\<close> holds once it is loaded: the names that have a zone
      file, in the table's order\<close>
  "all_timezones db = map fst db"

text \<open>
  \<open>pytz.all_timezones\<close> is a \<open>LazyList\<close>: a list object that is created empty and
  fills itself with the names at the first call of one of its methods (\<open>__contains__\<close>,
  \<open>__iter__\<close>, \<open>__len__\<close>, \<open>__getitem__\<close>, ...). Whoever reads the storage of
  the list object without calling a method sees what has been loaded so far. Whether the
  list has been loaded is the only state of the process that the handlers touch.
\<close>

datatype lazy_list = Unloaded | Loaded

definition storage :: "tzdb \<Rightarrow> lazy_list \<Rightarrow> string list" where
  \<comment> \<open>the items in the storage of the list object\<close>
  "storage db l = (case l of Unloaded \<Rightarrow> [] | Loaded \<Rightarrow> all_timezones db)"

text \<open>
  A \<open>tzinfo\<close> object. \<open>pytz\<close> keeps one object per zone name for \<open>UTC\<close> and the static
  zones, and for a zone with transitions one object per \<open>(utcoffset, dst, tzname)\<close>
  of the zone; \<open>pytz.timezone\<close> returns the one for the first transition. Two values
  of this type are equal exactly when they stand for the same object (\<open>is\<close>).
\<close>

datatype tzinfo =
    UTC
  | StaticTzInfo string int string
  | DstTzInfo string "naive \<times> ttinfo" "(naive \<times> ttinfo) list" ttinfo

definition timezone :: "tzdb \<Rightarrow> string \<Rightarrow> exn + tzinfo" where
  \<comment> \<open>\<open>pytz.timezone(zone)\<close> on the names of \<open>all_timezones\<close>, which are the only ones the
      handler is called with. (For other spellings \<open>pytz\<close> also tries a case-insensitive
      lookup before it raises.)\<close>
  "timezone db zone =
     (if map to_upper zone = ''UTC'' then Inr UTC
      else case map_of db zone of
             None \<Rightarrow> Inl (UnknownTimeZoneError zone)
           | Some (StaticZone off nm) \<Rightarrow> Inr (StaticTzInfo zone off nm)
           | Some (DstZone t0 ts) \<Rightarrow> Inr (DstTzInfo zone t0 ts (snd t0)))"

function bisect_right :: "int list \<Rightarrow> int \<Rightarrow> nat \<Rightarrow> nat \<Rightarrow> nat" where
  "bisect_right a x lo hi =
     (if lo < hi
      then let mid = (lo + hi) div 2
           in if x < a ! mid then bisect_right a x lo mid else bisect_right a x (mid + 1) hi
      else lo)"
  by pat_completeness auto
termination
  by (relation "measure (\<lambda>(a, x, lo, hi). hi - lo)") auto

declare bisect_right.simps [simp del]

definition inf_at :: "naive \<times> ttinfo \<Rightarrow> (naive \<times> ttinfo) list \<Rightarrow> naive \<Rightarrow> ttinfo" where
  \<comment> \<open>\<open>idx = max(0, bisect_right(self._utc_transition_times, dt) - 1)\<close>,
      \<open>inf = self._transition_info[idx]\<close>\<close>
  "inf_at t0 ts x =
     (let times = map fst (t0 # ts);
          idx = max 0 (int (bisect_right times x 0 (length times)) - 1)
      in map snd (t0 # ts) ! nat idx)"

subsection \<open>Aware datetimes\<close>

record aware =
  wall :: naive
  tz :: tzinfo

fun tz_utcoffset :: "tzinfo \<Rightarrow> int" where
  \<comment> \<open>\<open>tzinfo.utcoffset(dt)\<close> for a datetime that carries this very object\<close>
  "tz_utcoffset UTC = 0"
| "tz_utcoffset (StaticTzInfo z off nm) = off"
| "tz_utcoffset (DstTzInfo z t0 ts info) = utcoffset info"

fun tz_dst :: "tzinfo \<Rightarrow> int" where
  "tz_dst UTC = 0"
| "tz_dst (StaticTzInfo z off nm) = 0"
| "tz_dst (DstTzInfo z t0 ts info) = dst info"

definition aware_add :: "aware \<Rightarrow> int \<Rightarrow> exn + aware" where
  \<comment> \<open>\<open>dt + timedelta(seconds=d)\<close> on an aware datetime: wall-clock arithmetic, same \<open>tzinfo\<close>\<close>
  "aware_add a d = bind_exn (add_timedelta (wall a) d) (\<lambda>w. Inr (a\<lparr>wall := w\<rparr>))"

definition aware_eq :: "aware \<Rightarrow> aware \<Rightarrow> bool" where
  \<comment> \<open>\<open>==\<close> on aware datetimes: by wall clock under one \<open>tzinfo\<close> object, by UTC time otherwise\<close>
  "aware_eq a b =
     (if tz a = tz b then wall a = wall b
      else wall a - tz_utcoffset (tz a) = wall b - tz_utcoffset (tz b))"

subsection \<open>\<open>fromutc\<close>, \<open>localize\<close> and \<open>astimezone\<close>\<close>

fun fromutc :: "tzinfo \<Rightarrow> naive \<Rightarrow> exn + aware" where
  "fromutc UTC u = Inr \<lparr>wall = u, tz = UTC\<rparr>"
| "fromutc (StaticTzInfo z off nm) u =
     bind_exn (add_timedelta u off) (\<lambda>w. Inr \<lparr>wall = w, tz = StaticTzInfo z off nm\<rparr>)"
| "fromutc (DstTzInfo z t0 ts _) u =
     (let info = inf_at t0 ts u
      in bind_exn (add_timedelta u (utcoffset info)) (\<lambda>w. Inr \<lparr>wall = w, tz = DstTzInfo z t0 ts info\<rparr>))"

definition candidate ::
  "string \<Rightarrow> naive \<times> ttinfo \<Rightarrow> (naive \<times> ttinfo) list \<Rightarrow> naive \<Rightarrow> int \<Rightarrow> exn + aware option" where
  \<comment> \<open>one round of the loop of \<open>DstTzInfo.localize\<close>: the \<open>tzinfo\<close> in force one day before or
      after \<open>dt\<close> is attached to \<open>dt\<close>, the result is normalized (to UTC under that offset and
      back with \<open>fromutc\<close>) and kept when its wall clock is \<open>dt\<close> again\<close>
  "candidate z t0 ts dt delta =
     bind_exn (add_timedelta dt delta) (\<lambda>loc_dt.
       let info = inf_at t0 ts loc_dt
       in bind_exn (add_timedelta dt (- utcoffset info)) (\<lambda>u.
            bind_exn (fromutc (DstTzInfo z t0 ts info) u) (\<lambda>loc_dt.
              Inr (if wall loc_dt = dt then Some loc_dt else None))))"

definition possible_loc_dt ::
  "string \<Rightarrow> naive \<times> ttinfo \<Rightarrow> (naive \<times> ttinfo) list \<Rightarrow> naive \<Rightarrow> exn + aware list" where
  \<comment> \<open>the set \<open>possible_loc_dt\<close> after the loop over \<open>[timedelta(days=-1), timedelta(days=1)]\<close>\<close>
  "possible_loc_dt z t0 ts dt =
     bind_exn (candidate z t0 ts dt (- 86400)) (\<lambda>c1.
       bind_exn (candidate z t0 ts dt 86400) (\<lambda>c2.
         Inr (case (c1, c2) of
                (None, None) \<Rightarrow> []
              | (Some a, None) \<Rightarrow> [a]
              | (None, Some b) \<Rightarrow> [b]
              | (Some a, Some b) \<Rightarrow> if aware_eq a b then [a] else [a, b])))"

definition latest :: "aware \<Rightarrow> aware \<Rightarrow> aware" where
  \<comment> \<open>\<open>dates[max(dates)]\<close>: of two candidates, the one that is later in UTC\<close>
  "latest a b =
     (if wall a - tz_utcoffset (tz a) \<ge> wall b - tz_utcoffset (tz b) then a else b)"

function localize_dst ::
  "string \<Rightarrow> naive \<times> ttinfo \<Rightarrow> (naive \<times> ttinfo) list \<Rightarrow> naive \<Rightarrow> exn + aware" where
  \<comment> \<open>\<open>DstTzInfo.localize(dt, is_dst=False)\<close>\<close>
  "localize_dst z t0 ts dt =
     (case possible_loc_dt z t0 ts dt of
        Inl e \<Rightarrow> Inl e
      | Inr [a] \<Rightarrow> Inr a
      | Inr [] \<Rightarrow>
          \<comment> \<open>a time that never happened: wind the clock back six hours and forward again\<close>
          (case add_timedelta dt (- 21600) of
             Inl e \<Rightarrow> Inl e
           | Inr dt' \<Rightarrow>
               (case localize_dst z t0 ts dt' of
                  Inl e \<Rightarrow> Inl e
                | Inr a \<Rightarrow> aware_add a 21600))
      | Inr (a # b # _) \<Rightarrow>
          \<comment> \<open>an ambiguous time: the possibilities that are not daylight-saving time; the
              latest in UTC when that leaves none or both\<close>
          (case filter (\<lambda>p. tz_dst (tz p) = 0) [a, b] of
             [p] \<Rightarrow> Inr p
           | _ \<Rightarrow> Inr (latest a b)))"
  by pat_completeness auto
termination
proof (relation "measure (\<lambda>(z, t0, ts, dt). nat dt)")
  show "wf (measure (\<lambda>(z, t0, ts, dt). nat dt))" by simp
next
  fix z :: string and t0 :: "naive \<times> ttinfo" and ts :: "(naive \<times> ttinfo) list"
    and dt dt' :: naive and x :: "aware list"
  assume "add_timedelta dt (- 21600) = Inr dt'"
  then have "dt' = dt - 21600" and "0 \<le> dt'"
    by (auto simp: add_timedelta_def in_range_def split: if_splits)
  then show "((z, t0, ts, dt'), (z, t0, ts, dt)) \<in> measure (\<lambda>(z, t0, ts, dt). nat dt)"
    by simp
qed

declare localize_dst.simps [simp del]

fun localize :: "tzinfo \<Rightarrow> naive \<Rightarrow> exn + aware" where
  \<comment> \<open>\<open>tz.localize(dt)\<close>; \<open>UTC\<close> and the static zones only attach themselves\<close>
  "localize UTC dt = Inr \<lparr>wall = dt, tz = UTC\<rparr>"
| "localize (StaticTzInfo z off nm) dt = Inr \<lparr>wall = dt, tz = StaticTzInfo z off nm\<rparr>"
| "localize (DstTzInfo z t0 ts _) dt = localize_dst z t0 ts dt"

definition astimezone :: "aware \<Rightarrow> tzinfo \<Rightarrow> exn + aware" where
  \<comment> \<open>\<open>datetime.astimezone(tz)\<close>\<close>
  "astimezone self tz' =
     (let mytz = tz self; myoffset = tz_utcoffset mytz
      in if tz' = mytz then Inr self
         else bind_exn (add_timedelta (wall self) (- myoffset)) (\<lambda>utc. fromutc tz' utc))"

subsection \<open>The request and response models\<close>

record TimeConversionRequest =
  time :: string
  source_timezone :: string
  target_timezone :: string

record TimeConversionResponse =
  original_time :: string
  converted_time :: string
  source_timezone :: string
  target_timezone :: string

definition validate_time_format :: "string \<Rightarrow> exn + string" where
  "validate_time_format v =
     (case strptime v of
        Inl _ \<Rightarrow> Inl (ValueError ''time must be in format 'YYYY-MM-DD HH:MM' (24hr)'')
      | Inr _ \<Rightarrow> Inr v)"

definition validate_timezone :: "tzdb \<Rightarrow> string \<Rightarrow> exn + string" where
  \<comment> \<open>\<open>v not in pytz.all_timezones\<close> calls \<open>__contains__\<close>, which loads the list before it
      looks: the validator sees all names whatever the state of the list, and leaves the
      list loaded\<close>
  "validate_timezone db v =
     (if v \<notin> set (all_timezones db)
      then Inl (ValueError (v @ '' is not a recognized timezone.''))
      else Inr v)"

definition field_errors :: "string \<Rightarrow> exn + string \<Rightarrow> (string \<times> string) list" where
  "field_errors loc r = (case r of Inl e \<Rightarrow> [(loc, str e)] | Inr _ \<Rightarrow> [])"

definition validate_request ::
  "tzdb \<Rightarrow> TimeConversionRequest \<Rightarrow> (string \<times> string) list" where
  \<comment> \<open>the model's validators run on every field, in the order of the fields, before the
      handler is called; the framework collects what they raise\<close>
  "validate_request db request =
     field_errors ''time'' (validate_time_format (time request))
     @ field_errors ''source_timezone''
         (validate_timezone db (TimeConversionRequest.source_timezone request))
     @ field_errors ''target_timezone''
         (validate_timezone db (TimeConversionRequest.target_timezone request))"

subsection \<open>The handlers\<close>

datatype HTTPException = HTTPException nat string

definition health_check :: "(string \<times> string) list" where
  "health_check = [(''message'', ''Healthy'')]"

definition list_timezones :: "lazy_list \<Rightarrow> lazy_list" where
  \<comment> \<open>the value of the one key \<open>"timezones"\<close>: the list object \<open>pytz.all_timezones\<close>
      itself, on which the handler calls no method\<close>
  "list_timezones l = l"

definition convert_time ::
  "platform \<Rightarrow> tzdb \<Rightarrow> TimeConversionRequest \<Rightarrow> HTTPException + TimeConversionResponse" where
  "convert_time pf db request =
     (case
        bind_exn (strptime (time request)) (\<lambda>input_dt_naive.
        bind_exn (timezone db (TimeConversionRequest.source_timezone request)) (\<lambda>src_tz.
        bind_exn (timezone db (TimeConversionRequest.target_timezone request)) (\<lambda>tgt_tz.
        bind_exn (localize src_tz input_dt_naive) (\<lambda>input_dt.
        bind_exn (astimezone input_dt tgt_tz) (\<lambda>converted_dt.
          Inr \<lparr>original_time = strftime pf (wall input_dt),
               converted_time = strftime pf (wall converted_dt),
               source_timezone = TimeConversionRequest.source_timezone request,
               target_timezone = TimeConversionRequest.target_timezone request\<rparr>)))))
      of
        Inr response \<Rightarrow> Inr response
      | Inl e \<Rightarrow> Inl (HTTPException 400 (''Invalid input or time zone error: '' @ str e)))"

subsection \<open>The application\<close>

text \<open>
  What a client receives: the status and the JSON body. A handler's return value is
  sent with status 200. A request body that fails the validators of its model never
  reaches the handler: the framework answers 422 with the list of the failures (the
  field and the validator's message). An \<open>HTTPException\<close> is sent with its own status
  and \<open>{"detail": ...}\<close>.
\<close>

datatype body =
    Message "(string \<times> string) list"
  | Timezones "string list"
  | Conversion TimeConversionResponse
  | ValidationErrors "(string \<times> string) list"
  | Detail string

datatype response = Response nat body

definition get_root :: response where
  \<comment> \<open>\<open>GET /\<close>\<close>
  "get_root = Response 200 (Message health_check)"

text \<open>
  The route \<open>/timezones\<close> is declared with \<open>response_model=TimezonesResponse\<close>: the
  framework validates what the handler returns against that model and sends the validated
  copy. The two major versions of the validation library read a list differently:
  version 1 iterates over it (and \<open>__iter__\<close> loads the lazy list), version 2 copies the
  storage of the list object. The repository does not say which version it runs on, so the
  version is a parameter.
\<close>

datatype pydantic = Pydantic1 | Pydantic2

fun TimezonesResponse_validate ::
  "pydantic \<Rightarrow> tzdb \<Rightarrow> lazy_list \<Rightarrow> string list \<times> lazy_list" where
  \<comment> \<open>the field \<open>timezones: List[str]\<close> of the response model, given the list object: the
      validated copy and the state the list is left in\<close>
  "TimezonesResponse_validate Pydantic1 db l = (all_timezones db, Loaded)"
| "TimezonesResponse_validate Pydantic2 db l = (storage db l, l)"

definition get_timezones :: "pydantic \<Rightarrow> tzdb \<Rightarrow> lazy_list \<Rightarrow> response \<times> lazy_list" where
  \<comment> \<open>\<open>GET /timezones\<close>\<close>
  "get_timezones pyd db l =
     (let (tzs, l') = TimezonesResponse_validate pyd db (list_timezones l)
      in (Response 200 (Timezones tzs), l'))"

definition post_convert_time :: "platform \<Rightarrow> tzdb \<Rightarrow> TimeConversionRequest \<Rightarrow> response" where
  \<comment> \<open>\<open>POST /convert-time\<close>\<close>
  "post_convert_time pf db request =
     (case validate_request db request of
        e # es \<Rightarrow> Response 422 (ValidationErrors (e # es))
      | [] \<Rightarrow>
          (case convert_time pf db request of
             Inl (HTTPException status_code detail) \<Rightarrow> Response status_code (Detail detail)
           | Inr r \<Rightarrow> Response 200 (Conversion r)))"

text \<open>
  The three routes as one service that answers requests one after the other. The
  health check does not touch the list of names; the validators of the request body of
  \<open>/convert-time\<close> load it.
\<close>

datatype request = GET_root | GET_timezones | POST_convert_time TimeConversionRequest

fun serve ::
  "pydantic \<Rightarrow> platform \<Rightarrow> tzdb \<Rightarrow> request \<Rightarrow> lazy_list \<Rightarrow> response \<times> lazy_list" where
  "serve pyd pf db GET_root l = (get_root, l)"
| "serve pyd pf db GET_timezones l = get_timezones pyd db l"
| "serve pyd pf db (POST_convert_time request) l = (post_convert_time pf db request, Loaded)"

fun serve_all ::
  "pydantic \<Rightarrow> platform \<Rightarrow> tzdb \<Rightarrow> request list \<Rightarrow> lazy_list \<Rightarrow> response list" where
  \<comment> \<open>the answers to a sequence of requests\<close>
  "serve_all pyd pf db [] l = []"
| "serve_all pyd pf db (rq # rqs) l =
     (let (answer, l') = serve pyd pf db rq l in answer # serve_all pyd pf db rqs l')"

subsection \<open>A small timezone table\<close>

text \<open>
  A table in the shape of the one \<open>pytz\<close> ships, cut down to five zones and, for the
  zones with transitions, to a few of their transitions. The times are
  1945-10-14 17:30 (Asia/Kolkata), and 2022-11-06 06:00, 2023-03-12 07:00 and
  2023-11-05 06:00 (America/New_York), all UTC.
\<close>

definition ny_LMT :: ttinfo where
  "ny_LMT = \<lparr>utcoffset = - 17760, dst = 0, tzname = ''LMT''\<rparr>"

definition ny_EST :: ttinfo where
  "ny_EST = \<lparr>utcoffset = - 18000, dst = 0, tzname = ''EST''\<rparr>"

definition ny_EDT :: ttinfo where
  "ny_EDT = \<lparr>utcoffset = - 14400, dst = 3600, tzname = ''EDT''\<rparr>"

definition ny_first :: "naive \<times> ttinfo" where
  "ny_first = (0, ny_LMT)"

definition ny_later :: "(naive \<times> ttinfo) list" where
  "ny_later = [(63803311200, ny_EST), (63814201200, ny_EDT), (63834760800, ny_EST)]"

definition new_york :: zone where
  "new_york = DstZone ny_first ny_later"

definition kol_LMT :: ttinfo where
  "kol_LMT = \<lparr>utcoffset = 21180, dst = 0, tzname = ''LMT''\<rparr>"

definition kol_IST :: ttinfo where
  "kol_IST = \<lparr>utcoffset = 19800, dst = 0, tzname = ''IST''\<rparr>"

definition kol_first :: "naive \<times> ttinfo" where
  "kol_first = (0, kol_LMT)"

definition kol_later :: "(naive \<times> ttinfo) list" where
  "kol_later = [(61371451800, kol_IST)]"

definition kolkata :: zone where
  "kolkata = DstZone kol_first kol_later"

definition sample_db :: tzdb where
  "sample_db =
     [(''America/New_York'', new_york),
      (''Asia/Kolkata'', kolkata),
      (''Etc/GMT-14'', StaticZone 50400 ''+14''),
      (''Etc/GMT+12'', StaticZone (- 43200) ''-12''),
      (''UTC'', StaticZone 0 ''UTC'')]"

definition zone_offset_at :: "zone \<Rightarrow> naive \<Rightarrow> int" where
  \<comment> \<open>the offset a zone of the table has at a UTC time\<close>
  "zone_offset_at zn u =
     (case zn of StaticZone off nm \<Rightarrow> off | DstZone t0 ts \<Rightarrow> utcoffset (inf_at t0 ts u))"

subsection \<open>Local times inside and outside a transition\<close>

fun tz_offset_at :: "tzinfo \<Rightarrow> naive \<Rightarrow> int" where
  \<comment> \<open>the offset of the zone of a \<open>tzinfo\<close> object at a UTC time, as \<open>fromutc\<close> finds it\<close>
  "tz_offset_at UTC u = 0"
| "tz_offset_at (StaticTzInfo z off nm) u = off"
| "tz_offset_at (DstTzInfo z t0 ts _) u = utcoffset (inf_at t0 ts u)"

fun tz_offsets :: "tzinfo \<Rightarrow> int list" where
  \<comment> \<open>the offsets in the table of the zone of a \<open>tzinfo\<close> object\<close>
  "tz_offsets UTC = [0]"
| "tz_offsets (StaticTzInfo z off nm) = [off]"
| "tz_offsets (DstTzInfo z t0 ts _) = map (\<lambda>p. utcoffset (snd p)) (t0 # ts)"

definition local_time_exists :: "tzinfo \<Rightarrow> naive \<Rightarrow> bool" where
  \<comment> \<open>the wall clock \<open>dt\<close> exists in the zone: at some UTC time \<open>u\<close> the clocks of the zone
      show \<open>dt\<close>, that is \<open>u + tz_offset_at z u = dt\<close>. Such a \<open>u\<close> is \<open>dt\<close> less one of the
      offsets of the table, so it is enough to try these\<close>
  "local_time_exists z dt \<longleftrightarrow> (\<exists>off \<in> set (tz_offsets z). tz_offset_at z (dt - off) = off)"

fun well_spaced :: "int list \<Rightarrow> bool" where
  \<comment> \<open>each time of the list is at least two days after the one before\<close>
  "well_spaced (a # b # r) \<longleftrightarrow> a + 172800 \<le> b \<and> well_spaced (b # r)"
| "well_spaced _ \<longleftrightarrow> True"

fun regular_table :: "tzinfo \<Rightarrow> bool" where
  \<comment> \<open>the transitions of the zone are at least two days apart, and each of its offsets is
      less than a day\<close>
  "regular_table (DstTzInfo z t0 ts _) \<longleftrightarrow>
     well_spaced (map fst (t0 # ts)) \<and> (\<forall>p \<in> set (t0 # ts). \<bar>utcoffset (snd p)\<bar> < 86400)"
| "regular_table _ \<longleftrightarrow> True"

fun clear_of_range_ends :: "tzinfo \<Rightarrow> naive \<Rightarrow> bool" where
  \<comment> \<open>\<open>dt\<close> is two days or more from both ends of the range of \<open>datetime\<close>; this matters
      for the zones with transitions only, where \<open>localize\<close> looks a day around \<open>dt\<close>
      under offsets of up to a day\<close>
  "clear_of_range_ends (DstTzInfo z t0 ts _) dt \<longleftrightarrow>
     in_range (dt - 172800) \<and> in_range (dt + 172800)"
| "clear_of_range_ends _ dt \<longleftrightarrow> True"

definition regular_local_time :: "tzinfo \<Rightarrow> naive \<Rightarrow> bool" where
  \<comment> \<open>the wall clock \<open>dt\<close> lies in no transition of the zone: it was not skipped, and it
      was not passed twice (exactly one UTC time has the local time \<open>dt\<close>)\<close>
  "regular_local_time z dt \<longleftrightarrow>
     local_time_exists z dt
     \<and> (\<forall>u u'. u + tz_offset_at z u = dt \<and> u' + tz_offset_at z u' = dt \<longrightarrow> u = u')"

fun whole_minutes :: "tzinfo \<Rightarrow> bool" where
  \<comment> \<open>every offset of the zone is a whole number of minutes, as \<open>pytz\<close> builds them\<close>
  "whole_minutes UTC \<longleftrightarrow> True"
| "whole_minutes (StaticTzInfo z off nm) \<longleftrightarrow> off mod 60 = 0"
| "whole_minutes (DstTzInfo z t0 ts _) \<longleftrightarrow> (\<forall>p \<in> set (t0 # ts). utcoffset (snd p) mod 60 = 0)"

definition idx_at :: "int list \<Rightarrow> int \<Rightarrow> nat" where
  \<comment> \<open>the index into the table that \<open>inf_at\<close> computes\<close>
  "idx_at a x = nat (max 0 (int (bisect_right a x 0 (length a)) - 1))"

definition consistent ::
  "string \<Rightarrow> naive \<times> ttinfo \<Rightarrow> (naive \<times> ttinfo) list \<Rightarrow> naive \<Rightarrow> aware \<Rightarrow> bool" where
  \<comment> \<open>an aware datetime of the zone that shows the wall clock \<open>dt\<close> and carries the
      \<open>tzinfo\<close> in force at the UTC time it stands for\<close>
  "consistent z t0 ts dt a \<longleftrightarrow>
     wall a = dt \<and> (\<exists>i. tz a = DstTzInfo z t0 ts i \<and> inf_at t0 ts (dt - utcoffset i) = i)"

definition valid_date :: "int \<Rightarrow> int \<Rightarrow> int \<Rightarrow> bool" where
  \<comment> \<open>a month and a day that the constructor \<open>date(year, month, day)\<close> accepts\<close>
  "valid_date y m d \<longleftrightarrow> 1 \<le> m \<and> m \<le> 12 \<and> 1 \<le> d \<and> d \<le> days_in_month y m"

definition month_day :: "bool \<Rightarrow> int \<Rightarrow> int \<times> int" where
  \<comment> \<open>the last part of \<open>ord2ymd\<close> on its own: month and day from the day of the year\<close>
  "month_day leapyear n =
     (let month = (n + 50) div 32;
          preceding = DAYS_BEFORE_MONTH ! nat month
                             + (if month > 2 \<and> leapyear then 1 else 0)
      in if preceding > n
              then let month = month - 1;
                       preceding = preceding - (DAYS_IN_MONTH ! nat month
                                     + (if month = 2 \<and> leapyear then 1 else 0))
                   in (month, n - preceding + 1)
              else (month, n - preceding + 1))"

subsection \<open>The strings that \<open>strptime\<close> accepts\<close>

definition spellings :: "nat \<Rightarrow> string list" where
  \<comment> \<open>how a number of a field may be written: with two digits, or with one when it is below ten\<close>
  "spellings n = (if n < 10 then [zdec 2 n, zdec 0 n] else [zdec 2 n])"

definition day_spellings :: "nat \<Rightarrow> string list" where
  \<comment> \<open>a day below ten may also be written as a blank and one digit\<close>
  "day_spellings n = spellings n @ (if n < 10 then [CHR '' '' # zdec 0 n] else [])"

definition full_first :: "('a \<times> string) list \<Rightarrow> bool" where
  \<comment> \<open>of the matches of a regular expression, one that takes the whole text can only be the
      first one\<close>
  "full_first xs \<longleftrightarrow> (\<forall>v. (v, []) \<in> set xs \<longrightarrow> (\<exists>t. xs = (v, []) # t))"

definition lenient_format :: "string \<Rightarrow> bool" where
  \<comment> \<open>a four-digit year from 0001 to 9999, \<open>-\<close>, a month, \<open>-\<close>, a day that the month of
      that year has, one or more white-space characters, an hour up to 23, \<open>:\<close> and a minute
      up to 59, each of the four written with one or two digits\<close>
  "lenient_format v \<longleftrightarrow>
     (\<exists>Y m d H M ms ds ws hs ns.
        1 \<le> Y \<and> Y \<le> 9999 \<and> 1 \<le> m \<and> m \<le> 12
        \<and> 1 \<le> d \<and> int d \<le> days_in_month (int Y) (int m) \<and> H \<le> 23 \<and> M \<le> 59
        \<and> ms \<in> set (spellings m) \<and> ds \<in> set (day_spellings d)
        \<and> ws \<noteq> [] \<and> list_all is_space ws
        \<and> hs \<in> set (spellings H) \<and> ns \<in> set (spellings M)
        \<and> v = zdec 4 Y @ ''-'' @ ms @ ''-'' @ ds @ ws @ hs @ '':'' @ ns)"

definition fixed_pattern :: "string \<Rightarrow> bool" where
  \<comment> \<open>the pattern \<open>YYYY-MM-DD HH:MM\<close>: four digits, \<open>-\<close>, two digits, \<open>-\<close>, two digits,
      a blank, two digits, \<open>:\<close>, two digits, and nothing else\<close>
  "fixed_pattern v \<longleftrightarrow>
     length v = 16
     \<and> list_all (\<lambda>i. is_digit (v ! i)) [0, 1, 2, 3, 5, 6, 8, 9, 11, 12, 14, 15]
     \<and> v ! 4 = CHR ''-'' \<and> v ! 7 = CHR ''-'' \<and> v ! 10 = CHR '' '' \<and> v ! 13 = CHR '':''"

section \<open>Properties\<close>

subsection \<open>Evaluating the library calls\<close>

lemma strptime_noon: "strptime ''2023-07-15 12:00'' = Inr 63825019200"
  by code_simp

lemma strftime_noon: "strftime pf 63825019200 = ''2023-07-15 12:00''"
  by (induct pf; code_simp)

lemma strftime_kolkata: "strftime pf 63825039000 = ''2023-07-15 17:30''"
  by (induct pf; code_simp)

lemma in_range_noon: "in_range 63825019200" "in_range 63825039000"
  by (simp_all add: in_range_def MAXORDINAL_def)


lemma upper_utc: "map to_upper ''utc'' = ''UTC''" "map to_upper ''UTC'' = ''UTC''"
  by code_simp+

lemma upper_kolkata: "map to_upper ''Asia/Kolkata'' \<noteq> ''UTC''"
  by simp

lemma timezone_UTC: "timezone db ''UTC'' = Inr UTC"
  by (simp add: timezone_def upper_utc del: list.map)

lemma sample_db_names:
  "all_timezones sample_db
     = [''America/New_York'', ''Asia/Kolkata'', ''Etc/GMT-14'', ''Etc/GMT+12'', ''UTC'']"
  by (simp add: all_timezones_def sample_db_def)

lemma kolkata_offset_noon: "zone_offset_at kolkata 63825019200 = 19800"
  by code_simp

subsection \<open>Health check\<close>

text \<open>
  C8: \<open>GET /\<close> answers with status 200 and exactly the constant payload
  \<open>{"message": "Healthy"}\<close>; it reads no input and has no failure branch.
\<close>

theorem health_check_constant:
  "get_root = Response 200 (Message [(''message'', ''Healthy'')])"
  by (simp add: get_root_def health_check_def)

subsection \<open>Listing the timezones\<close>

lemma get_timezones_loaded:
  "get_timezones pyd db Loaded = (Response 200 (Timezones (map fst db)), Loaded)"
  by (cases pyd) (simp_all add: get_timezones_def list_timezones_def storage_def all_timezones_def)

lemma get_timezones_pydantic1:
  "get_timezones Pydantic1 db l = (Response 200 (Timezones (map fst db)), Loaded)"
  by (simp add: get_timezones_def list_timezones_def all_timezones_def)

text \<open>
  C7: \<open>GET /timezones\<close> always answers with status 200, and it answers with the whole
  list of names, unfiltered and in the table's order, once the list has been loaded or
  when the response model iterates over it (the two lemmas above). But as the first request
  to a new process whose response model copies the storage of the list object, it answers
  with the empty list, although the table has five names, \<open>UTC\<close> among them.
\<close>

theorem list_timezones_first_request:
  "get_timezones Pydantic2 sample_db Unloaded = (Response 200 (Timezones []), Unloaded)
   \<and> ''UTC'' \<in> set (all_timezones sample_db)"
  by (simp add: get_timezones_def list_timezones_def storage_def sample_db_names)

subsection \<open>The timezone validator\<close>

text \<open>
  C6: the timezone validator accepts a name exactly when the name is a member of the
  list of names of the timezone table, and then returns it unchanged. Membership is
  equality of strings: a name that differs from a listed one in the case of its letters
  and is not itself listed is refused, and so is \<open>Mars/Phobos\<close> when the table does
  not list it.
\<close>

theorem validate_timezone_exact:
  "((\<exists>r. validate_timezone db v = Inr r) \<longleftrightarrow> v \<in> set (all_timezones db))
   \<and> (v \<in> set (all_timezones db) \<longrightarrow> validate_timezone db v = Inr v)
   \<and> (w \<in> set (all_timezones db) \<and> map to_upper v = map to_upper w
        \<and> v \<notin> set (all_timezones db)
      \<longrightarrow> validate_timezone db v = Inl (ValueError (v @ '' is not a recognized timezone.'')))
   \<and> (''Mars/Phobos'' \<notin> set (all_timezones db)
      \<longrightarrow> validate_timezone db ''Mars/Phobos''
            = Inl (ValueError ''Mars/Phobos is not a recognized timezone.''))"
  by (simp add: validate_timezone_def)

theorem validate_timezone_exact_witness:
  "''UTC'' \<in> set (all_timezones sample_db)
   \<and> validate_timezone sample_db ''UTC'' = Inr ''UTC''
   \<and> map to_upper ''utc'' = map to_upper ''UTC''
   \<and> ''utc'' \<notin> set (all_timezones sample_db)
   \<and> validate_timezone sample_db ''utc'' = Inl (ValueError ''utc is not a recognized timezone.'')
   \<and> ''Mars/Phobos'' \<notin> set (all_timezones sample_db)
   \<and> validate_timezone sample_db ''Mars/Phobos''
       = Inl (ValueError ''Mars/Phobos is not a recognized timezone.'')"
proof -
  have a: "''UTC'' \<in> set (all_timezones sample_db)"
    by (simp add: sample_db_names)
  have b: "map to_upper ''utc'' = map to_upper ''UTC''"
    by (simp only: upper_utc)
  have c: "''utc'' \<notin> set (all_timezones sample_db)"
    by (simp add: sample_db_names)
  have d: "''Mars/Phobos'' \<notin> set (all_timezones sample_db)"
    by (simp add: sample_db_names)
  have "validate_timezone sample_db ''utc''
          = Inl (ValueError (''utc'' @ '' is not a recognized timezone.''))"
    and "validate_timezone sample_db ''Mars/Phobos''
          = Inl (ValueError ''Mars/Phobos is not a recognized timezone.'')"
    using validate_timezone_exact [of sample_db "''utc''" "''UTC''"] a b c d by blast+
  moreover have "validate_timezone sample_db ''UTC'' = Inr ''UTC''"
    using validate_timezone_exact [of sample_db "''UTC''"] a by blast
  ultimately show ?thesis
    using a b c d by simp
qed

subsection \<open>Failures of \<open>POST /convert-time\<close>\<close>

text \<open>
  Every exception inside the handler's \<open>try\<close> block becomes the status 400 with the
  detail \<open>Invalid input or time zone error: \<close> followed by the text of the exception.
\<close>

lemma handler_failure_is_400:
  assumes "convert_time pf db request = Inl h"
  shows "\<exists>e. h = HTTPException 400 (''Invalid input or time zone error: '' @ str e)"
  using assms by (auto simp: convert_time_def split: sum.splits)

text \<open>
  C1: a malformed time string is stopped by the validator of the request model before
  the handler runs, and the client receives the status 422 with the list of validation
  failures, not the status 400 with \<open>Invalid input or time zone error: ...\<close>.
\<close>

theorem malformed_time_is_422:
  "post_convert_time PlainYear sample_db
     \<lparr>time = ''15-07-2023 12:00'', source_timezone = ''UTC'', target_timezone = ''UTC''\<rparr>
   = Response 422
       (ValidationErrors [(''time'', ''time must be in format 'YYYY-MM-DD HH:MM' (24hr)'')])"
proof -
  have "isl (strptime ''15-07-2023 12:00'')"
    by code_simp
  then obtain e where "strptime ''15-07-2023 12:00'' = Inl e"
    by (cases "strptime ''15-07-2023 12:00''") simp_all
  then show ?thesis
    by (simp add: post_convert_time_def validate_request_def validate_time_format_def
          validate_timezone_def field_errors_def sample_db_names)
qed

text \<open>The same for a timezone name that the table does not have.\<close>

lemma unknown_timezone_is_422:
  "post_convert_time PlainYear sample_db
     \<lparr>time = ''2023-07-15 12:00'', source_timezone = ''Mars/Phobos'', target_timezone = ''UTC''\<rparr>
   = Response 422
       (ValidationErrors [(''source_timezone'', ''Mars/Phobos is not a recognized timezone.'')])"
  by (simp add: post_convert_time_def validate_request_def validate_time_format_def
        validate_timezone_def field_errors_def sample_db_names strptime_noon)

subsection \<open>The conversion of 2023-07-15 12:00 from UTC to Asia/Kolkata\<close>

text \<open>
  C3: for \<open>time = "2023-07-15 12:00"\<close>, \<open>source_timezone = "UTC"\<close> and
  \<open>target_timezone = "Asia/Kolkata"\<close> the operation succeeds with
  \<open>converted_time = "2023-07-15 17:30"\<close>, on every timezone table that lists \<open>UTC\<close> and
  gives Asia/Kolkata the offset of five and a half hours at that time.
\<close>

theorem convert_utc_to_kolkata:
  assumes utc: "''UTC'' \<in> set (all_timezones db)"
    and zn: "map_of db ''Asia/Kolkata'' = Some zn"
    and t: "strptime ''2023-07-15 12:00'' = Inr t"
    and off: "zone_offset_at zn t = 19800"
  shows "post_convert_time pf db
           \<lparr>time = ''2023-07-15 12:00'', source_timezone = ''UTC'',
            target_timezone = ''Asia/Kolkata''\<rparr>
         = Response 200 (Conversion
             \<lparr>original_time = ''2023-07-15 12:00'', converted_time = ''2023-07-15 17:30'',
              source_timezone = ''UTC'', target_timezone = ''Asia/Kolkata''\<rparr>)"
proof -
  have t_eq: "t = 63825019200"
    using t by (simp add: strptime_noon)
  have kol: "''Asia/Kolkata'' \<in> set (all_timezones db)"
    using map_of_SomeD [OF zn] by (force simp: all_timezones_def)
  have valid: "validate_request db
      \<lparr>time = ''2023-07-15 12:00'', source_timezone = ''UTC'',
       target_timezone = ''Asia/Kolkata''\<rparr> = []"
    using utc kol
    by (simp add: validate_request_def validate_time_format_def validate_timezone_def
          field_errors_def strptime_noon)
  have conv: "\<exists>a. astimezone \<lparr>wall = 63825019200, tz = UTC\<rparr> a' = Inr a \<and> wall a = 63825039000"
    if "timezone db ''Asia/Kolkata'' = Inr a'" for a'
  proof (cases zn)
    case (StaticZone o' nm)
    with that zn off t_eq show ?thesis
      by (auto simp: timezone_def upper_kolkata astimezone_def bind_exn_def add_timedelta_def
            in_range_noon zone_offset_at_def)
  next
    case (DstZone t0 ts)
    with that zn off t_eq show ?thesis
      by (auto simp: timezone_def upper_kolkata astimezone_def bind_exn_def add_timedelta_def
            in_range_noon zone_offset_at_def Let_def)
  qed
  have "\<exists>a'. timezone db ''Asia/Kolkata'' = Inr a'"
    using zn by (cases zn) (simp_all add: timezone_def upper_kolkata)
  then obtain a' where a': "timezone db ''Asia/Kolkata'' = Inr a'" ..
  from conv [OF a'] obtain a where a: "astimezone \<lparr>wall = 63825019200, tz = UTC\<rparr> a' = Inr a"
    "wall a = 63825039000" by blast
  have "convert_time pf db
      \<lparr>time = ''2023-07-15 12:00'', source_timezone = ''UTC'',
       target_timezone = ''Asia/Kolkata''\<rparr>
     = Inr \<lparr>original_time = ''2023-07-15 12:00'', converted_time = ''2023-07-15 17:30'',
              source_timezone = ''UTC'', target_timezone = ''Asia/Kolkata''\<rparr>"
    using a a'
    by (simp add: convert_time_def bind_exn_def strptime_noon timezone_UTC strftime_noon
          strftime_kolkata)
  with valid show ?thesis
    by (simp add: post_convert_time_def)
qed

theorem convert_utc_to_kolkata_witness:
  "''UTC'' \<in> set (all_timezones sample_db)
   \<and> map_of sample_db ''Asia/Kolkata'' = Some kolkata
   \<and> strptime ''2023-07-15 12:00'' = Inr 63825019200
   \<and> zone_offset_at kolkata 63825019200 = 19800
   \<and> post_convert_time PlainYear sample_db
        \<lparr>time = ''2023-07-15 12:00'', source_timezone = ''UTC'',
         target_timezone = ''Asia/Kolkata''\<rparr>
      = Response 200 (Conversion
          \<lparr>original_time = ''2023-07-15 12:00'', converted_time = ''2023-07-15 17:30'',
           source_timezone = ''UTC'', target_timezone = ''Asia/Kolkata''\<rparr>)"
proof -
  have 1: "''UTC'' \<in> set (all_timezones sample_db)"
    by (simp add: sample_db_names)
  have 2: "map_of sample_db ''Asia/Kolkata'' = Some kolkata"
    by (simp add: sample_db_def)
  from convert_utc_to_kolkata [OF 1 2 strptime_noon kolkata_offset_noon, of PlainYear]
  show ?thesis
    using 1 2 strptime_noon kolkata_offset_noon by simp
qed

subsection \<open>The exception monad and the handler\<close>

lemma bind_exn_simps [simp]: "bind_exn (Inr x) f = f x" "bind_exn (Inl e) f = Inl e"
  by (simp_all add: bind_exn_def)

lemma bind_exn_Inr: "bind_exn m f = Inr y \<longleftrightarrow> (\<exists>x. m = Inr x \<and> f x = Inr y)"
  by (cases m) simp_all

lemma add_timedelta_Inr: "add_timedelta x d = Inr y \<longleftrightarrow> y = x + d \<and> in_range (x + d)"
  by (auto simp: add_timedelta_def)

lemma convert_time_Inr:
  "convert_time pf db request = Inr r \<longleftrightarrow>
     (\<exists>t src tgt a c. strptime (time request) = Inr t
        \<and> timezone db (TimeConversionRequest.source_timezone request) = Inr src
        \<and> timezone db (TimeConversionRequest.target_timezone request) = Inr tgt
        \<and> localize src t = Inr a \<and> astimezone a tgt = Inr c
        \<and> r = \<lparr>original_time = strftime pf (wall a), converted_time = strftime pf (wall c),
                source_timezone = TimeConversionRequest.source_timezone request,
                target_timezone = TimeConversionRequest.target_timezone request\<rparr>)"
  by (auto simp: convert_time_def bind_exn_Inr split: sum.splits)

lemma post_convert_time_200:
  "post_convert_time pf db request = Response 200 (Conversion r) \<longleftrightarrow>
     validate_request db request = [] \<and> convert_time pf db request = Inr r"
  by (auto simp: post_convert_time_def split: list.splits sum.splits HTTPException.splits)

subsection \<open>What \<open>localize\<close> returns\<close>

text \<open>
  Every candidate of \<open>localize\<close> is consistent: it shows the wall clock asked for, and the
  \<open>tzinfo\<close> it carries is the one in force at the UTC time it stands for.
\<close>

lemma candidate_consistent:
  assumes "candidate z t0 ts dt delta = Inr (Some a)"
  shows "consistent z t0 ts dt a"
  using assms
  by (auto simp: candidate_def consistent_def bind_exn_Inr add_timedelta_Inr Let_def
      split: if_splits)

lemma possible_consistent:
  assumes "possible_loc_dt z t0 ts dt = Inr xs" and "a \<in> set xs"
  shows "consistent z t0 ts dt a"
proof -
  from assms(1) obtain c1 c2 where c1: "candidate z t0 ts dt (- 86400) = Inr c1"
    and c2: "candidate z t0 ts dt 86400 = Inr c2"
    and xs: "xs = (case (c1, c2) of
                (None, None) \<Rightarrow> []
              | (Some a, None) \<Rightarrow> [a]
              | (None, Some b) \<Rightarrow> [b]
              | (Some a, Some b) \<Rightarrow> if aware_eq a b then [a] else [a, b])"
    unfolding possible_loc_dt_def bind_exn_Inr by blast
  from xs assms(2) have "c1 = Some a \<or> c2 = Some a"
    by (cases c1; cases c2) (auto split: if_splits)
  with c1 c2 show ?thesis
    by (blast intro: candidate_consistent)
qed

lemma localize_dst_consistent:
  assumes "localize_dst z t0 ts dt = Inr a" and "possible_loc_dt z t0 ts dt \<noteq> Inr []"
  shows "consistent z t0 ts dt a"
proof -
  from assms obtain xs where xs: "possible_loc_dt z t0 ts dt = Inr xs" "xs \<noteq> []"
    by (subst (asm) localize_dst.simps) (auto split: sum.splits)
  have "a \<in> set xs"
    using assms(1) xs
    by (subst (asm) localize_dst.simps)
       (auto simp: latest_def split: list.splits if_splits)
  with xs show ?thesis by (blast intro: possible_consistent)
qed

lemma localize_dst_unique:
  assumes "possible_loc_dt z t0 ts dt = Inr [a]"
  shows "localize_dst z t0 ts dt = Inr a"
  by (subst localize_dst.simps) (simp add: assms)

lemma localize_dst_skipped:
  assumes "possible_loc_dt z t0 ts dt = Inr []" and "in_range (dt - 21600)"
    and "localize_dst z t0 ts (dt - 21600) = Inr a"
  shows "localize_dst z t0 ts dt = aware_add a 21600"
  by (subst localize_dst.simps) (simp add: assms add_timedelta_def)

lemma astimezone_same_zone:
  assumes "consistent z t0 ts dt a" and "astimezone a (DstTzInfo z t0 ts i) = Inr c"
  shows "wall c = dt"
  using assms
  by (auto simp: consistent_def astimezone_def Let_def bind_exn_Inr add_timedelta_Inr
      split: if_splits)

subsection \<open>Searching the table of transitions\<close>

text \<open>
  On a sorted table \<open>bisect_right\<close> returns the number of transitions up to and including
  the time asked for. When the transitions are at least two days apart, the table entry in
  force at a time is also in force one day before or one day after a time that is less than a
  day away: this is why the two probes of \<open>localize\<close> find every local time that exists.
\<close>

lemma bisect_right_spec:
  assumes "sorted a" and "lo \<le> hi" and "hi \<le> length a"
    and "\<forall>j<lo. a ! j \<le> x" and "\<forall>j. hi \<le> j \<and> j < length a \<longrightarrow> x < a ! j"
  shows "lo \<le> bisect_right a x lo hi \<and> bisect_right a x lo hi \<le> hi
         \<and> (\<forall>j<bisect_right a x lo hi. a ! j \<le> x)
         \<and> (\<forall>j. bisect_right a x lo hi \<le> j \<and> j < length a \<longrightarrow> x < a ! j)"
  using assms
proof (induction a x lo hi rule: bisect_right.induct)
  case (1 a x lo hi)
  show ?case
  proof (cases "lo < hi")
    case False
    then have "bisect_right a x lo hi = lo"
      by (subst bisect_right.simps) simp
    with False "1.prems" show ?thesis
      by auto
  next
    case True
    define mid where "mid = (lo + hi) div 2"
    have mid: "lo \<le> mid" "mid < hi" using True by (auto simp: mid_def)
    show ?thesis
    proof (cases "x < a ! mid")
      case lt: True
      have up: "\<forall>j. mid \<le> j \<and> j < length a \<longrightarrow> x < a ! j"
      proof (intro allI impI)
        fix j assume j: "mid \<le> j \<and> j < length a"
        then have "a ! mid \<le> a ! j"
          using \<open>sorted a\<close> by (auto intro: sorted_nth_mono)
        with lt show "x < a ! j" by simp
      qed
      have eq: "bisect_right a x lo hi = bisect_right a x lo mid"
        using True lt by (subst bisect_right.simps) (simp add: mid_def Let_def)
      have "lo \<le> bisect_right a x lo mid \<and> bisect_right a x lo mid \<le> mid
         \<and> (\<forall>j<bisect_right a x lo mid. a ! j \<le> x)
         \<and> (\<forall>j. bisect_right a x lo mid \<le> j \<and> j < length a \<longrightarrow> x < a ! j)"
        using "1.IH"(1) [OF True mid_def lt \<open>sorted a\<close>] mid "1.prems" up by simp
      with eq mid show ?thesis by auto
    next
      case ge: False
      have low: "\<forall>j<mid + 1. a ! j \<le> x"
      proof (intro allI impI)
        fix j assume j: "j < mid + 1"
        then have "a ! j \<le> a ! mid"
          using \<open>sorted a\<close> mid "1.prems" by (auto intro: sorted_nth_mono)
        with ge show "a ! j \<le> x" by simp
      qed
      have eq: "bisect_right a x lo hi = bisect_right a x (mid + 1) hi"
        using True ge by (subst bisect_right.simps) (simp add: mid_def Let_def)
      have "mid + 1 \<le> bisect_right a x (mid + 1) hi \<and> bisect_right a x (mid + 1) hi \<le> hi
         \<and> (\<forall>j<bisect_right a x (mid + 1) hi. a ! j \<le> x)
         \<and> (\<forall>j. bisect_right a x (mid + 1) hi \<le> j \<and> j < length a \<longrightarrow> x < a ! j)"
        using "1.IH"(2) [OF True mid_def ge \<open>sorted a\<close>] mid "1.prems" low by simp
      with eq mid show ?thesis by auto
    qed
  qed
qed

lemma bisect_right_le:
  "lo \<le> hi \<Longrightarrow> bisect_right a x lo hi \<le> hi"
proof (induction a x lo hi rule: bisect_right.induct)
  case (1 a x lo hi)
  show ?case
  proof (cases "lo < hi")
    case False
    then have "bisect_right a x lo hi = lo"
      by (subst bisect_right.simps) simp
    with "1.prems" show ?thesis by simp
  next
    case True
    define mid where "mid = (lo + hi) div 2"
    have mid: "lo \<le> mid" "mid < hi" using True by (auto simp: mid_def)
    show ?thesis
    proof (cases "x < a ! mid")
      case lt: True
      have "bisect_right a x lo hi = bisect_right a x lo mid"
        using True lt by (subst bisect_right.simps) (simp add: mid_def Let_def)
      with "1.IH"(1) [OF True mid_def lt] mid show ?thesis by simp
    next
      case ge: False
      have "bisect_right a x lo hi = bisect_right a x (mid + 1) hi"
        using True ge by (subst bisect_right.simps) (simp add: mid_def Let_def)
      with "1.IH"(2) [OF True mid_def ge] mid show ?thesis by simp
    qed
  qed
qed


lemma inf_at_idx: "inf_at t0 ts x = map snd (t0 # ts) ! idx_at (map fst (t0 # ts)) x"
  by (simp add: inf_at_def idx_at_def Let_def del: list.map)

lemma idx_at_less: "a \<noteq> [] \<Longrightarrow> idx_at a x < length a"
  using bisect_right_le [of 0 "length a" a x] by (cases a) (auto simp: idx_at_def)

lemma well_spaced_sorted: "well_spaced a \<Longrightarrow> sorted a"
proof (induction a rule: well_spaced.induct)
  case (1 a b r)
  then have "sorted (b # r)" and "a \<le> b" by simp_all
  then show ?case by (auto dest: order_trans)
qed simp_all

lemma well_spaced_nth:
  "well_spaced a \<Longrightarrow> Suc i < length a \<Longrightarrow> a ! i + 172800 \<le> a ! Suc i"
proof (induction a arbitrary: i rule: well_spaced.induct)
  case (1 a b r)
  then show ?case by (cases i) simp_all
qed simp_all

lemma idx_probe:
  assumes ws: "well_spaced a" and "p1 \<le> u" and "u \<le> p2" and "p2 \<le> p1 + 172800"
  shows "idx_at a u = idx_at a p1 \<or> idx_at a u = idx_at a p2"
proof -
  define r where "r x = bisect_right a x 0 (length a)" for x
  have len: "r x \<le> length a" for x
    unfolding r_def by (rule bisect_right_le) simp
  have below: "a ! j \<le> x" if "j < r x" for j x
    using bisect_right_spec [OF well_spaced_sorted [OF ws], of 0 "length a" x] that
    unfolding r_def by simp
  have above: "x < a ! j" if "r x \<le> j" "j < length a" for j x
    using bisect_right_spec [OF well_spaced_sorted [OF ws], of 0 "length a" x] that
    unfolding r_def by simp
  have mono: "r x \<le> r y" if "x \<le> y" for x y
  proof (rule ccontr)
    assume "\<not> r x \<le> r y"
    then have lt: "r y < r x" by simp
    then have "a ! r y \<le> x" by (rule below)
    moreover have "y < a ! r y"
      using lt len [of x] by (intro above) simp_all
    ultimately show False using that by simp
  qed
  have idx: "idx_at a x = r x - 1" for x
    by (simp add: idx_at_def r_def)
  show ?thesis
  proof (rule ccontr)
    assume neg: "\<not> ?thesis"
    have "r p1 \<le> r u" "r u \<le> r p2"
      using mono assms by auto
    with neg have k: "r p1 \<le> r u - 1" "1 \<le> r u - 1" "r u + 1 \<le> r p2"
      unfolding idx by auto
    have "p1 < a ! (r u - 1)"
      using k len [of u] by (intro above) simp_all
    moreover have "a ! Suc (r u - 1) \<le> p2"
      using k by (intro below) simp
    moreover have "a ! (r u - 1) + 172800 \<le> a ! Suc (r u - 1)"
      using k len [of p2] by (intro well_spaced_nth [OF ws]) simp
    ultimately show False
      using assms by simp
  qed
qed

lemma inf_at_mem: "inf_at t0 ts x \<in> snd ` set (t0 # ts)"
proof -
  have "idx_at (map fst (t0 # ts)) x < length (t0 # ts)"
    using idx_at_less [of "map fst (t0 # ts)" x] by simp
  then have "(t0 # ts) ! idx_at (map fst (t0 # ts)) x \<in> set (t0 # ts)"
    by (rule nth_mem)
  moreover have "inf_at t0 ts x = snd ((t0 # ts) ! idx_at (map fst (t0 # ts)) x)"
    unfolding inf_at_idx using \<open>idx_at (map fst (t0 # ts)) x < length (t0 # ts)\<close>
    by (simp only: nth_map)
  ultimately show ?thesis by (simp only: image_eqI)
qed

lemma inf_at_probe:
  assumes "well_spaced (map fst (t0 # ts))" and "p1 \<le> u" and "u \<le> p2" and "p2 \<le> p1 + 172800"
  shows "inf_at t0 ts u = inf_at t0 ts p1 \<or> inf_at t0 ts u = inf_at t0 ts p2"
  using idx_probe [OF assms] unfolding inf_at_idx by auto


lemma in_range_between:
  "in_range lo \<Longrightarrow> in_range hi \<Longrightarrow> lo \<le> x \<Longrightarrow> x \<le> hi \<Longrightarrow> in_range x"
  by (simp add: in_range_def)

lemma inf_at_bounded:
  assumes "\<forall>p \<in> set (t0 # ts). \<bar>utcoffset (snd p)\<bar> < 86400"
  shows "\<bar>utcoffset (inf_at t0 ts x)\<bar> < 86400"
  using inf_at_mem [of t0 ts x] assms by (auto simp del: abs_less_iff)

lemma local_time_exists_iff:
  "local_time_exists z dt \<longleftrightarrow> (\<exists>u. u + tz_offset_at z u = dt)"
proof
  assume "local_time_exists z dt"
  then obtain off where "tz_offset_at z (dt - off) = off"
    by (auto simp: local_time_exists_def)
  then have "(dt - off) + tz_offset_at z (dt - off) = dt" by simp
  then show "\<exists>u. u + tz_offset_at z u = dt" ..
next
  assume "\<exists>u. u + tz_offset_at z u = dt"
  then obtain u where u: "u + tz_offset_at z u = dt" ..
  have "tz_offset_at z u \<in> set (tz_offsets z)"
  proof (cases z)
    case (DstTzInfo n t0 ts i)
    from inf_at_mem [of t0 ts u] obtain p where p: "p \<in> set (t0 # ts)"
      and "inf_at t0 ts u = snd p" by blast
    then have "utcoffset (inf_at t0 ts u) = (\<lambda>p. utcoffset (snd p)) p"
      by simp
    then have "utcoffset (inf_at t0 ts u) \<in> (\<lambda>p. utcoffset (snd p)) ` set (t0 # ts)"
      using p by (rule image_eqI)
    then show ?thesis
      by (simp only: DstTzInfo tz_offset_at.simps tz_offsets.simps set_map)
  qed simp_all
  moreover have "tz_offset_at z (dt - tz_offset_at z u) = tz_offset_at z u"
    using u by (simp add: algebra_simps flip: u)
  ultimately show "local_time_exists z dt"
    unfolding local_time_exists_def by blast
qed

lemma candidate_total:
  assumes b: "\<forall>p \<in> set (t0 # ts). \<bar>utcoffset (snd p)\<bar> < 86400"
    and lo: "in_range (dt - 172800)" and hi: "in_range (dt + 172800)"
    and d: "delta = - 86400 \<or> delta = 86400"
  shows "\<exists>c. candidate z t0 ts dt delta = Inr c"
proof -
  have 1: "in_range (dt + delta)"
    using d by (intro in_range_between [OF lo hi]) auto
  define i where "i = inf_at t0 ts (dt + delta)"
  have bi: "\<bar>utcoffset i\<bar> < 86400"
    unfolding i_def by (rule inf_at_bounded [OF b])
  have 2: "in_range (dt - utcoffset i)"
    using bi by (intro in_range_between [OF lo hi]) auto
  define j where "j = inf_at t0 ts (dt - utcoffset i)"
  have bj: "\<bar>utcoffset j\<bar> < 86400"
    unfolding j_def by (rule inf_at_bounded [OF b])
  have 3: "in_range (dt - utcoffset i + utcoffset j)"
    using bi bj by (intro in_range_between [OF lo hi]) auto
  show ?thesis
    using 1 2 3
    by (simp add: candidate_def add_timedelta_def Let_def flip: i_def j_def)
qed

lemma candidate_found:
  assumes lo: "in_range (dt - 172800)" and hi: "in_range (dt + 172800)"
    and d: "delta = - 86400 \<or> delta = 86400"
    and i: "inf_at t0 ts (dt + delta) = i" and c: "inf_at t0 ts (dt - utcoffset i) = i"
    and bi: "\<bar>utcoffset i\<bar> < 86400"
  shows "candidate z t0 ts dt delta = Inr (Some \<lparr>wall = dt, tz = DstTzInfo z t0 ts i\<rparr>)"
proof -
  have 1: "in_range (dt + delta)"
    using d by (intro in_range_between [OF lo hi]) auto
  have 2: "in_range (dt - utcoffset i)"
    using bi by (intro in_range_between [OF lo hi]) auto
  have 3: "in_range dt"
    by (intro in_range_between [OF lo hi]) auto
  show ?thesis
    using 1 2 3 i c
    by (simp add: candidate_def add_timedelta_def Let_def)
qed

lemma possible_nonempty:
  assumes ws: "well_spaced (map fst (t0 # ts))"
    and b: "\<forall>p \<in> set (t0 # ts). \<bar>utcoffset (snd p)\<bar> < 86400"
    and lo: "in_range (dt - 172800)" and hi: "in_range (dt + 172800)"
    and ex: "utcoffset (inf_at t0 ts (dt - off)) = off"
  shows "\<exists>a xs. possible_loc_dt z t0 ts dt = Inr (a # xs)"
proof -
  define i where "i = inf_at t0 ts (dt - off)"
  have off: "utcoffset i = off"
    using ex by (simp add: i_def)
  have c: "inf_at t0 ts (dt - utcoffset i) = i"
    unfolding off by (simp add: i_def)
  have bi: "\<bar>utcoffset i\<bar> < 86400"
    unfolding i_def by (rule inf_at_bounded [OF b])
  have "inf_at t0 ts (dt - off) = inf_at t0 ts (dt - 86400)
        \<or> inf_at t0 ts (dt - off) = inf_at t0 ts (dt + 86400)"
    using bi off by (intro inf_at_probe [OF ws]) auto
  then consider (before) "inf_at t0 ts (dt + (- 86400)) = i" | (after) "inf_at t0 ts (dt + 86400) = i"
    by (auto simp: i_def)
  then show ?thesis
  proof cases
    case before
    have 1: "candidate z t0 ts dt (- 86400) = Inr (Some \<lparr>wall = dt, tz = DstTzInfo z t0 ts i\<rparr>)"
      by (rule candidate_found [OF lo hi _ before c bi]) simp
    obtain c2 where 2: "candidate z t0 ts dt 86400 = Inr c2"
      using candidate_total [OF b lo hi, of 86400 z] by auto
    show ?thesis
      by (cases c2) (simp_all add: possible_loc_dt_def 1 2)
  next
    case after
    have 2: "candidate z t0 ts dt 86400 = Inr (Some \<lparr>wall = dt, tz = DstTzInfo z t0 ts i\<rparr>)"
      by (rule candidate_found [OF lo hi _ after c bi]) simp
    obtain c1 where 1: "candidate z t0 ts dt (- 86400) = Inr c1"
      using candidate_total [OF b lo hi, of "- 86400" z] by auto
    show ?thesis
      by (cases c1) (simp_all add: possible_loc_dt_def 1 2)
  qed
qed

lemma localize_dst_found:
  assumes "possible_loc_dt z t0 ts dt = Inr (x # xs)"
  shows "\<exists>a. localize_dst z t0 ts dt = Inr a \<and> a \<in> set (x # xs)"
  by (subst localize_dst.simps)
     (auto simp: assms latest_def split: list.splits)

lemma astimezone_consistent:
  assumes co: "consistent z t0 ts dt a"
    and b: "\<forall>p \<in> set (t0 # ts). \<bar>utcoffset (snd p)\<bar> < 86400"
    and lo: "in_range (dt - 172800)" and hi: "in_range (dt + 172800)"
  shows "\<exists>c. astimezone a (DstTzInfo z t0 ts i0) = Inr c \<and> wall c = dt"
proof -
  from co obtain i where a: "wall a = dt" "tz a = DstTzInfo z t0 ts i"
    and i: "inf_at t0 ts (dt - utcoffset i) = i"
    by (auto simp: consistent_def)
  have bi: "\<bar>utcoffset i\<bar> < 86400"
    using inf_at_bounded [OF b, of "dt - utcoffset i"] by (simp only: i)
  have 2: "in_range (dt - utcoffset i)"
    using bi by (intro in_range_between [OF lo hi]) auto
  have 3: "in_range dt"
    by (intro in_range_between [OF lo hi]) auto
  show ?thesis
    using a i 2 3 by (simp add: astimezone_def add_timedelta_def Let_def)
qed

lemma localize_same_zone:
  assumes "regular_table tzo" and "clear_of_range_ends tzo t" and "local_time_exists tzo t"
  shows "\<exists>a c. localize tzo t = Inr a \<and> astimezone a tzo = Inr c \<and> wall a = t \<and> wall c = t"
proof (cases tzo)
  case UTC
  then show ?thesis by (simp add: astimezone_def)
next
  case (StaticTzInfo z off nm)
  then show ?thesis by (simp add: astimezone_def)
next
  case (DstTzInfo z t0 ts i0)
  with assms have ws: "well_spaced (map fst (t0 # ts))"
    and b: "\<forall>p \<in> set (t0 # ts). \<bar>utcoffset (snd p)\<bar> < 86400"
    and lo: "in_range (t - 172800)" and hi: "in_range (t + 172800)"
    by simp_all
  from assms(3) DstTzInfo obtain off where "utcoffset (inf_at t0 ts (t - off)) = off"
    by (auto simp: local_time_exists_def)
  from possible_nonempty [OF ws b lo hi this]
  obtain x xs where p: "possible_loc_dt z t0 ts t = Inr (x # xs)" by blast
  from localize_dst_found [OF p] obtain a where a: "localize_dst z t0 ts t = Inr a"
    "a \<in> set (x # xs)" by blast
  have co: "consistent z t0 ts t a"
    by (rule possible_consistent [OF p a(2)])
  from astimezone_consistent [OF co b lo hi]
  obtain c where "astimezone a (DstTzInfo z t0 ts i0) = Inr c" "wall c = t" by blast
  with a co DstTzInfo show ?thesis
    by (simp add: consistent_def)
qed

subsection \<open>Converting from a zone to the same zone\<close>

lemma ny_gap_localize:
  "localize_dst ''America/New_York'' ny_first ny_later 63814185000
     = Inr \<lparr>wall = 63814185000, tz = DstTzInfo ''America/New_York'' ny_first ny_later ny_EST\<rparr>"
proof -
  have 1: "possible_loc_dt ''America/New_York'' ny_first ny_later 63814185000 = Inr []"
    by code_simp
  have 2: "possible_loc_dt ''America/New_York'' ny_first ny_later 63814163400
             = Inr [\<lparr>wall = 63814163400,
                     tz = DstTzInfo ''America/New_York'' ny_first ny_later ny_EST\<rparr>]"
    by code_simp
  have 3: "in_range (63814185000 - 21600)"
    by (simp add: in_range_def MAXORDINAL_def)
  have 4: "localize_dst ''America/New_York'' ny_first ny_later (63814185000 - 21600)
             = Inr \<lparr>wall = 63814163400,
                    tz = DstTzInfo ''America/New_York'' ny_first ny_later ny_EST\<rparr>"
    using localize_dst_unique [OF 2] by simp
  show ?thesis
    by (simp add: localize_dst_skipped [OF 1 3 4] aware_add_def add_timedelta_def in_range_def
          MAXORDINAL_def)
qed

lemma ny_gap_astimezone:
  "astimezone \<lparr>wall = 63814185000, tz = DstTzInfo ''America/New_York'' ny_first ny_later ny_EST\<rparr>
     (DstTzInfo ''America/New_York'' ny_first ny_later ny_LMT)
   = Inr \<lparr>wall = 63814188600, tz = DstTzInfo ''America/New_York'' ny_first ny_later ny_EDT\<rparr>"
  by code_simp

lemma timezone_new_york:
  "timezone sample_db ''America/New_York''
     = Inr (DstTzInfo ''America/New_York'' ny_first ny_later ny_LMT)"
proof -
  have "map to_upper ''America/New_York'' \<noteq> ''UTC''" by simp
  then show ?thesis
    by (simp add: timezone_def sample_db_def new_york_def ny_first_def del: list.map)
qed

lemma ny_gap_strings:
  "strptime ''2023-03-12 02:30'' = Inr 63814185000"
  "strftime pf 63814185000 = ''2023-03-12 02:30''"
  "strftime pf 63814188600 = ''2023-03-12 03:30''"
  by (code_simp, (induct pf; code_simp)+)

text \<open>
  C4, as stated, fails: 02:30 on 2023-03-12 was skipped in New York (the clocks went from
  02:00 to 03:00), and converting it from America/New_York to America/New_York returns
  03:30.
\<close>

theorem same_zone_skipped_time:
  "post_convert_time PadsYear sample_db
     \<lparr>time = ''2023-03-12 02:30'', source_timezone = ''America/New_York'',
      target_timezone = ''America/New_York''\<rparr>
   = Response 200 (Conversion
       \<lparr>original_time = ''2023-03-12 02:30'', converted_time = ''2023-03-12 03:30'',
        source_timezone = ''America/New_York'', target_timezone = ''America/New_York''\<rparr>)"
proof -
  have "validate_request sample_db
     \<lparr>time = ''2023-03-12 02:30'', source_timezone = ''America/New_York'',
      target_timezone = ''America/New_York''\<rparr> = []"
    by (simp add: validate_request_def validate_time_format_def validate_timezone_def
          field_errors_def sample_db_names ny_gap_strings)
  moreover have "convert_time PadsYear sample_db
     \<lparr>time = ''2023-03-12 02:30'', source_timezone = ''America/New_York'',
      target_timezone = ''America/New_York''\<rparr>
    = Inr \<lparr>original_time = ''2023-03-12 02:30'', converted_time = ''2023-03-12 03:30'',
        source_timezone = ''America/New_York'', target_timezone = ''America/New_York''\<rparr>"
    by (simp add: convert_time_def ny_gap_strings timezone_new_york ny_gap_localize
          ny_gap_astimezone)
  ultimately show ?thesis
    by (simp add: post_convert_time_def)
qed

lemma timezone_listed:
  assumes "z \<in> set (all_timezones db)"
  shows "\<exists>tzo. timezone db z = Inr tzo"
proof (cases "map_of db z")
  case None
  with assms show ?thesis
    by (simp add: all_timezones_def map_of_eq_None_iff)
next
  case (Some zn)
  then show ?thesis
    by (cases zn) (simp_all add: timezone_def del: list.map)
qed

text \<open>The skipped time of the counterexample does not exist in the zone.\<close>

lemma ny_gap_does_not_exist:
  "\<not> local_time_exists (DstTzInfo ''America/New_York'' ny_first ny_later ny_LMT) 63814185000"
  by code_simp

text \<open>
  C4, amended: for every timestamp that the validator accepts and every listed zone, if
  the timestamp is a local time that exists in the zone (some UTC time shows that wall
  clock there), then converting from the zone to the same zone succeeds and
  \<open>converted_time\<close> equals \<open>original_time\<close>, both being the timestamp as the fixed format
  renders it. For a zone with transitions this holds when its transitions are at least two
  days apart and its offsets less than a day, as \<open>localize\<close> looks for the local time one
  day before and one day after, and when the timestamp is two days or more from both ends
  of the range of \<open>datetime\<close>, where the arithmetic of \<open>localize\<close> overflows. \<open>UTC\<close> and
  the zones without transitions need none of this.
\<close>

theorem same_zone_identity:
  assumes "z \<in> set (all_timezones db)" and "strptime s = Inr t" and "timezone db z = Inr tzo"
    and "regular_table tzo" and "local_time_exists tzo t" and "clear_of_range_ends tzo t"
  shows "post_convert_time pf db \<lparr>time = s, source_timezone = z, target_timezone = z\<rparr>
         = Response 200 (Conversion
             \<lparr>original_time = strftime pf t, converted_time = strftime pf t,
              source_timezone = z, target_timezone = z\<rparr>)"
proof -
  have valid: "validate_request db \<lparr>time = s, source_timezone = z, target_timezone = z\<rparr> = []"
    using assms(1,2)
    by (simp add: validate_request_def validate_time_format_def validate_timezone_def
          field_errors_def)
  from localize_same_zone [OF assms(4,6,5)]
  obtain a c where "localize tzo t = Inr a" "astimezone a tzo = Inr c" "wall a = t" "wall c = t"
    by blast
  then have "convert_time pf db \<lparr>time = s, source_timezone = z, target_timezone = z\<rparr>
      = Inr \<lparr>original_time = strftime pf t, converted_time = strftime pf t,
              source_timezone = z, target_timezone = z\<rparr>"
    using assms(2,3) by (simp add: convert_time_def)
  with valid show ?thesis
    by (simp add: post_convert_time_def)
qed

lemma ny_summer_strings:
  "strptime ''2023-07-05 01:30'' = Inr 63824117400"
  "strftime pf 63824117400 = ''2023-07-05 01:30''"
  by (code_simp, (induct pf; code_simp))

lemma ny_regular_table:
  "regular_table (DstTzInfo ''America/New_York'' ny_first ny_later ny_LMT)"
  by code_simp

lemma ny_summer_exists:
  "local_time_exists (DstTzInfo ''America/New_York'' ny_first ny_later ny_LMT) 63824117400"
  by code_simp

lemma ny_summer_clear:
  "clear_of_range_ends (DstTzInfo ''America/New_York'' ny_first ny_later ny_LMT) 63824117400"
  by (simp add: in_range_def MAXORDINAL_def)

theorem same_zone_identity_witness:
  "''America/New_York'' \<in> set (all_timezones sample_db)
   \<and> strptime ''2023-07-05 01:30'' = Inr 63824117400
   \<and> timezone sample_db ''America/New_York''
       = Inr (DstTzInfo ''America/New_York'' ny_first ny_later ny_LMT)
   \<and> regular_table (DstTzInfo ''America/New_York'' ny_first ny_later ny_LMT)
   \<and> local_time_exists (DstTzInfo ''America/New_York'' ny_first ny_later ny_LMT) 63824117400
   \<and> clear_of_range_ends (DstTzInfo ''America/New_York'' ny_first ny_later ny_LMT) 63824117400
   \<and> post_convert_time PlainYear sample_db
        \<lparr>time = ''2023-07-05 01:30'', source_timezone = ''America/New_York'',
         target_timezone = ''America/New_York''\<rparr>
      = Response 200 (Conversion
          \<lparr>original_time = ''2023-07-05 01:30'', converted_time = ''2023-07-05 01:30'',
           source_timezone = ''America/New_York'', target_timezone = ''America/New_York''\<rparr>)"
proof -
  have 1: "''America/New_York'' \<in> set (all_timezones sample_db)"
    by (simp add: sample_db_names)
  from same_zone_identity [OF 1 ny_summer_strings(1) timezone_new_york ny_regular_table
      ny_summer_exists ny_summer_clear, of PlainYear]
  show ?thesis
    using 1 ny_summer_strings timezone_new_york ny_regular_table ny_summer_exists ny_summer_clear
    by simp
qed

subsection \<open>The calendar: \<open>ord2ymd\<close> and \<open>ymd2ord\<close> are inverse\<close>

lemma int_1_12:
  fixes k :: int
  assumes "1 \<le> k" and "k \<le> 12"
  shows "k = 1 \<or> k = 2 \<or> k = 3 \<or> k = 4 \<or> k = 5 \<or> k = 6
      \<or> k = 7 \<or> k = 8 \<or> k = 9 \<or> k = 10 \<or> k = 11 \<or> k = 12"
  using assms by arith

lemma month_day_correct:
  assumes "0 \<le> n" and "n \<le> 364"
  shows "case month_day L n of (m, d) \<Rightarrow>
           1 \<le> m \<and> m \<le> 12 \<and> 1 \<le> d
           \<and> d \<le> (if m = 2 \<and> L then 29 else DAYS_IN_MONTH ! nat m)
           \<and> DAYS_BEFORE_MONTH ! nat m + (if m > 2 \<and> L then 1 else 0) + d = n + 1"
proof -
  define k where "k = (n + 50) div 32"
  have n: "32 * k \<le> n + 50" "n + 50 < 32 * k + 32"
    unfolding k_def by linarith+
  then have "1 \<le> k" "k \<le> 12"
    using assms by linarith+
  then have "k = 1 \<or> k = 2 \<or> k = 3 \<or> k = 4 \<or> k = 5 \<or> k = 6
      \<or> k = 7 \<or> k = 8 \<or> k = 9 \<or> k = 10 \<or> k = 11 \<or> k = 12"
    by (rule int_1_12)
  then have "case (let month = k;
          preceding = DAYS_BEFORE_MONTH ! nat month
                             + (if month > 2 \<and> L then 1 else 0)
      in if preceding > n
              then let month = month - 1;
                       preceding = preceding - (DAYS_IN_MONTH ! nat month
                                     + (if month = 2 \<and> L then 1 else 0))
                   in (month, n - preceding + 1)
              else (month, n - preceding + 1)) of (m, d) \<Rightarrow>
           1 \<le> m \<and> m \<le> 12 \<and> 1 \<le> d
           \<and> d \<le> (if m = 2 \<and> L then 29 else DAYS_IN_MONTH ! nat m)
           \<and> DAYS_BEFORE_MONTH ! nat m + (if m > 2 \<and> L then 1 else 0) + d = n + 1"
    using n assms unfolding DAYS_BEFORE_MONTH_def DAYS_IN_MONTH_def
    by (elim disjE; simp add: Let_def)
  then show ?thesis
    by (simp add: month_day_def k_def)
qed

lemma days_before_year_digits:
  assumes "0 \<le> b" "b \<le> 3" "0 \<le> c" "c \<le> 24" "0 \<le> e" "e \<le> 3"
  shows "days_before_year (400 * a + 100 * b + 4 * c + e + 1)
           = 146097 * a + 36524 * b + 1461 * c + 365 * e"
proof -
  define Y where "Y = 400 * a + 100 * b + 4 * c + e"
  have "Y div 4 = 100 * a + 25 * b + c" "Y div 100 = 4 * a + b" "Y div 400 = a"
    using assms unfolding Y_def by linarith+
  then show ?thesis
    by (simp add: days_before_year_def Y_def [symmetric]) (simp add: Y_def)
qed

lemma is_leap_digits:
  assumes "0 \<le> b" "b \<le> 3" "0 \<le> c" "c \<le> 24" "0 \<le> e" "e \<le> 3"
  shows "is_leap (400 * a + 100 * b + 4 * c + e + 1) \<longleftrightarrow> e = 3 \<and> (c \<noteq> 24 \<or> b = 3)"
proof -
  define Y where "Y = 400 * a + 100 * b + 4 * c + e + 1"
  have m4: "Y mod 4 = (e + 1) mod 4"
    using mod_mult_self4 [of 4 "100 * a + 25 * b + c" "e + 1"] by (simp add: Y_def algebra_simps)
  have m100: "Y mod 100 = (4 * c + e + 1) mod 100"
    using mod_mult_self4 [of 100 "4 * a + b" "4 * c + e + 1"] by (simp add: Y_def algebra_simps)
  have m400: "Y mod 400 = (100 * b + 4 * c + e + 1) mod 400"
    using mod_mult_self4 [of 400 a "100 * b + 4 * c + e + 1"] by (simp add: Y_def algebra_simps)
  have e: "e = 0 \<or> e = 1 \<or> e = 2 \<or> e = 3" using assms by arith
  have b: "b = 0 \<or> b = 1 \<or> b = 2 \<or> b = 3" using assms by arith
  have "is_leap Y \<longleftrightarrow> e = 3 \<and> (c \<noteq> 24 \<or> b = 3)"
  proof (cases "e = 3")
    case False
    with e have "Y mod 4 \<noteq> 0" unfolding m4 by auto
    with False show ?thesis by (simp add: is_leap_def)
  next
    case True
    then have 4: "Y mod 4 = 0" unfolding m4 by simp
    show ?thesis
    proof (cases "c = 24")
      case False
      with assms have "(4 * c + 4) mod 100 = 4 * c + 4" by simp
      with assms have "Y mod 100 \<noteq> 0" unfolding m100 using True by simp
      with 4 True False show ?thesis by (simp add: is_leap_def)
    next
      case c: True
      then have 100: "Y mod 100 = 0" unfolding m100 using True by simp
      from b have "Y mod 400 = 0 \<longleftrightarrow> b = 3" unfolding m400 using True c by auto
      with 4 100 True c show ?thesis by (simp add: is_leap_def)
    qed
  qed
  then show ?thesis by (simp add: Y_def)
qed

lemma ord2ymd_correct:
  assumes "1 \<le> n0"
  shows "case ord2ymd n0 of (y, m, d) \<Rightarrow>
           1 \<le> y \<and> valid_date y m d \<and> ymd2ord y m d = n0 \<and> (n0 \<le> MAXORDINAL \<longrightarrow> y \<le> 9999)"
proof -
  define n where "n = n0 - 1"
  define a where "a = n div 146097"
  define r1 where "r1 = n mod 146097"
  define b where "b = r1 div 36524"
  define r2 where "r2 = r1 mod 36524"
  define c where "c = r2 div 1461"
  define r3 where "r3 = r2 mod 1461"
  define e where "e = r3 div 365"
  define r4 where "r4 = r3 mod 365"
  define Y where "Y = 400 * a + 100 * b + 4 * c + e"
  have n: "0 \<le> n" "n0 = n + 1" using assms by (simp_all add: n_def)
  have 1: "146097 * a + r1 = n" "0 \<le> r1" "r1 < 146097"
    by (simp_all add: a_def r1_def)
  have 2: "36524 * b + r2 = r1" "0 \<le> r2" "r2 < 36524"
    by (simp_all add: b_def r2_def)
  have 3: "1461 * c + r3 = r2" "0 \<le> r3" "r3 < 1461"
    by (simp_all add: c_def r3_def)
  have 4: "365 * e + r4 = r3" "0 \<le> r4" "r4 < 365"
    by (simp_all add: e_def r4_def)
  have bounds: "0 \<le> a" "0 \<le> b" "b \<le> 4" "0 \<le> c" "c \<le> 24" "0 \<le> e" "e \<le> 4"
    using n 1 2 3 4 by linarith+
  have o: "ord2ymd n0 =
      (if e = 4 \<or> b = 4 then (Y, 12, 31)
       else case month_day (e = 3 \<and> (c \<noteq> 24 \<or> b = 3)) r4 of (m, d) \<Rightarrow> (Y + 1, m, d))"
    unfolding ord2ymd_def month_day_def Let_def DI400Y_def DI100Y_def DI4Y_def
      n_def [symmetric] a_def [symmetric] r1_def [symmetric] b_def [symmetric]
      r2_def [symmetric] c_def [symmetric] r3_def [symmetric] e_def [symmetric]
      r4_def [symmetric]
    by (simp add: Y_def)
  have year: "(if e = 4 \<or> b = 4 then Y else Y + 1) \<le> 9999" if "n0 \<le> MAXORDINAL"
  proof -
    from that n have le: "n \<le> 3652058" by (simp add: MAXORDINAL_def)
    with 1 have a24: "a \<le> 24" by linarith
    show ?thesis
    proof (cases "a \<le> 23")
      case True
      with bounds have "Y + 1 \<le> 9999" unfolding Y_def by linarith
      then show ?thesis by simp
    next
      case False
      with a24 have a: "a = 24" by simp
      with le 1 2 have b3: "b \<le> 3" by linarith
      show ?thesis
      proof (cases "b \<le> 2")
        case True
        with a bounds have "Y + 1 \<le> 9999" unfolding Y_def by linarith
        then show ?thesis by simp
      next
        case False
        with b3 have b: "b = 3" by simp
        show ?thesis
        proof (cases "c \<le> 23")
          case True
          with a b bounds have "Y + 1 \<le> 9999" unfolding Y_def by linarith
          then show ?thesis by simp
        next
          case False
          with bounds have c: "c = 24" by simp
          with le 1 2 3 4 a b have "e \<le> 2" by linarith
          with a b c have "Y + 1 \<le> 9999" unfolding Y_def by linarith
          then show ?thesis by simp
        qed
      qed
    qed
  qed
  show ?thesis
  proof (cases "e = 4 \<or> b = 4")
    case True
    then consider (e4) "e = 4" | (b4) "b = 4" "e \<noteq> 4" by blast
    then show ?thesis
    proof cases
      case e4
      with 1 2 3 4 bounds have r4: "r4 = 0" and b3: "b \<le> 3" and c23: "c \<le> 23"
        by linarith+
      have Y: "Y = 400 * a + 100 * b + 4 * c + 3 + 1" by (simp add: Y_def e4)
      have d: "days_before_year Y = 146097 * a + 36524 * b + 1461 * c + 365 * 3"
        unfolding Y using bounds b3 by (intro days_before_year_digits) simp_all
      have l: "is_leap Y"
        unfolding Y using bounds b3 c23 by (subst is_leap_digits) simp_all
      have "ymd2ord Y 12 31 = n0"
        using d l 1 2 3 4 r4 e4 n
        by (simp add: ymd2ord_def days_before_month_def DAYS_BEFORE_MONTH_def)
      moreover have "valid_date Y 12 31"
        by (simp add: valid_date_def days_in_month_def DAYS_IN_MONTH_def)
      moreover have "1 \<le> Y" using bounds by (simp add: Y)
      ultimately show ?thesis using True year by (simp add: o)
    next
      case b4
      with 1 2 3 4 bounds have z: "r2 = 0" "c = 0" "r3 = 0" "e = 0" "r4 = 0"
        by linarith+
      have Y: "Y = 400 * a + 100 * 3 + 4 * 24 + 3 + 1" by (simp add: Y_def b4 z)
      have d: "days_before_year Y = 146097 * a + 36524 * 3 + 1461 * 24 + 365 * 3"
        unfolding Y by (intro days_before_year_digits) simp_all
      have l: "is_leap Y"
        unfolding Y by (subst is_leap_digits) simp_all
      have "ymd2ord Y 12 31 = n0"
        using d l 1 2 z b4 n
        by (simp add: ymd2ord_def days_before_month_def DAYS_BEFORE_MONTH_def)
      moreover have "valid_date Y 12 31"
        by (simp add: valid_date_def days_in_month_def DAYS_IN_MONTH_def)
      moreover have "1 \<le> Y" using bounds by (simp add: Y)
      ultimately show ?thesis using True year by (simp add: o)
    qed
  next
    case False
    with bounds have b3: "b \<le> 3" and e3: "e \<le> 3" by linarith+
    define L where "L \<longleftrightarrow> e = 3 \<and> (c \<noteq> 24 \<or> b = 3)"
    obtain m d where md: "month_day L r4 = (m, d)" by (cases "month_day L r4")
    from month_day_correct [of r4 L] 4 md
    have m: "1 \<le> m" "m \<le> 12" "1 \<le> d"
      "d \<le> (if m = 2 \<and> L then 29 else DAYS_IN_MONTH ! nat m)"
      "DAYS_BEFORE_MONTH ! nat m + (if m > 2 \<and> L then 1 else 0) + d = r4 + 1"
      by simp_all
    have d: "days_before_year (Y + 1) = 146097 * a + 36524 * b + 1461 * c + 365 * e"
      unfolding Y_def using bounds b3 e3 by (intro days_before_year_digits) simp_all
    have l: "is_leap (Y + 1) \<longleftrightarrow> L"
      unfolding Y_def L_def using bounds b3 e3 by (intro is_leap_digits) simp_all
    have "ymd2ord (Y + 1) m d = n0"
      using d l m(5) 1 2 3 4 n by (simp add: ymd2ord_def days_before_month_def)
    moreover have "valid_date (Y + 1) m d"
      using m l by (simp add: valid_date_def days_in_month_def)
    moreover have "1 \<le> Y + 1" using bounds by (simp add: Y_def)
    ultimately show ?thesis
      using False year md by (simp add: o L_def)
  qed
qed

lemma month_table_inj:
  assumes "1 \<le> m" "m \<le> 12" "1 \<le> d" "d \<le> (if m = 2 \<and> L then 29 else DAYS_IN_MONTH ! nat m)"
    and "1 \<le> m'" "m' \<le> 12" "1 \<le> d'" "d' \<le> (if m' = 2 \<and> L then 29 else DAYS_IN_MONTH ! nat m')"
    and "DAYS_BEFORE_MONTH ! nat m + (if m > 2 \<and> L then 1 else 0) + d
       = DAYS_BEFORE_MONTH ! nat m' + (if m' > 2 \<and> L then 1 else 0) + d'"
  shows "m = m' \<and> d = d'"
proof -
  have m: "m = 1 \<or> m = 2 \<or> m = 3 \<or> m = 4 \<or> m = 5 \<or> m = 6
      \<or> m = 7 \<or> m = 8 \<or> m = 9 \<or> m = 10 \<or> m = 11 \<or> m = 12"
    using assms(1,2) by (rule int_1_12)
  have m': "m' = 1 \<or> m' = 2 \<or> m' = 3 \<or> m' = 4 \<or> m' = 5 \<or> m' = 6
      \<or> m' = 7 \<or> m' = 8 \<or> m' = 9 \<or> m' = 10 \<or> m' = 11 \<or> m' = 12"
    using assms(5,6) by (rule int_1_12)
  from m m' show ?thesis
    using assms(3,4,7,8,9) unfolding DAYS_BEFORE_MONTH_def DAYS_IN_MONTH_def
    by (elim disjE; simp split: if_splits)
qed

lemma day_of_year_bound:
  assumes "1 \<le> m" "m \<le> 12" "1 \<le> d" "d \<le> (if m = 2 \<and> L then 29 else DAYS_IN_MONTH ! nat m)"
  shows "DAYS_BEFORE_MONTH ! nat m + (if m > 2 \<and> L then 1 else 0) + d \<le> 365
         \<or> (L \<and> m = 12 \<and> d = 31)"
proof -
  have m: "m = 1 \<or> m = 2 \<or> m = 3 \<or> m = 4 \<or> m = 5 \<or> m = 6
      \<or> m = 7 \<or> m = 8 \<or> m = 9 \<or> m = 10 \<or> m = 11 \<or> m = 12"
    using assms(1,2) by (rule int_1_12)
  then show ?thesis
    using assms(3,4) unfolding DAYS_BEFORE_MONTH_def DAYS_IN_MONTH_def
    by (elim disjE; auto split: if_splits)
qed

lemma month_day_inverse:
  assumes "1 \<le> m" "m \<le> 12" "1 \<le> d" "d \<le> (if m = 2 \<and> L then 29 else DAYS_IN_MONTH ! nat m)"
    and "DAYS_BEFORE_MONTH ! nat m + (if m > 2 \<and> L then 1 else 0) + d \<le> 365"
  shows "month_day L (DAYS_BEFORE_MONTH ! nat m + (if m > 2 \<and> L then 1 else 0) + d - 1) = (m, d)"
proof -
  define n where "n = DAYS_BEFORE_MONTH ! nat m + (if m > 2 \<and> L then 1 else 0) + d - 1"
  have "0 \<le> DAYS_BEFORE_MONTH ! nat m"
    using int_1_12 [OF assms(1,2)] unfolding DAYS_BEFORE_MONTH_def by (elim disjE; simp)
  with assms have n: "0 \<le> n" "n \<le> 364" by (simp_all add: n_def)
  obtain m' d' where md: "month_day L n = (m', d')" by (cases "month_day L n")
  from month_day_correct [OF n, of L] md
  have "1 \<le> m'" "m' \<le> 12" "1 \<le> d'"
    "d' \<le> (if m' = 2 \<and> L then 29 else DAYS_IN_MONTH ! nat m')"
    "DAYS_BEFORE_MONTH ! nat m' + (if m' > 2 \<and> L then 1 else 0) + d' = n + 1"
    by simp_all
  with assms(1-4) have "m = m' \<and> d = d'"
    by (intro month_table_inj [of m d L m' d']) (simp_all add: n_def)
  with md show ?thesis by (simp add: n_def)
qed

lemma ord2ymd_digits:
  assumes n: "n0 - 1 = 146097 * a + 36524 * b + 1461 * c + 365 * e + r"
    and r: "0 \<le> r" "r < 365" and e: "0 \<le> e" "365 * e + r < 1461"
    and c: "0 \<le> c" "1461 * c + 365 * e + r < 36524"
    and b: "0 \<le> b" "36524 * b + 1461 * c + 365 * e + r < 146097"
  shows "ord2ymd n0 =
      (if e = 4 \<or> b = 4 then (400 * a + 100 * b + 4 * c + e, 12, 31)
       else case month_day (e = 3 \<and> (c \<noteq> 24 \<or> b = 3)) r of
              (m, d) \<Rightarrow> (400 * a + 100 * b + 4 * c + e + 1, m, d))"
proof -
  define r1 where "r1 = 36524 * b + 1461 * c + 365 * e + r"
  define r2 where "r2 = 1461 * c + 365 * e + r"
  define r3 where "r3 = 365 * e + r"
  have split: "x mod k = x - k * q" if "x div k = q" for x k q :: int
    using that minus_mult_div_eq_mod [of x k] by simp
  have 1: "(n0 - 1) div 146097 = a"
    using assms by linarith
  have m1: "(n0 - 1) mod 146097 = r1"
    using split [OF 1] n by (simp add: r1_def)
  have 2: "r1 div 36524 = b"
    using assms unfolding r1_def by linarith
  have m2: "r1 mod 36524 = r2"
    using split [OF 2] by (simp add: r1_def r2_def)
  have 3: "r2 div 1461 = c"
    using assms unfolding r2_def by linarith
  have m3: "r2 mod 1461 = r3"
    using split [OF 3] by (simp add: r2_def r3_def)
  have 4: "r3 div 365 = e"
    using assms unfolding r3_def by linarith
  have m4: "r3 mod 365 = r"
    using split [OF 4] by (simp add: r3_def)
  show ?thesis
    unfolding ord2ymd_def month_day_def Let_def DI400Y_def DI100Y_def DI4Y_def
      1 m1 2 m2 3 m3 4 m4
    by simp
qed

lemma ord2ymd_ymd2ord:
  assumes "1 \<le> y" and "valid_date y m d"
  shows "ord2ymd (ymd2ord y m d) = (y, m, d)"
proof -
  define a where "a = (y - 1) div 400"
  define q where "q = (y - 1) mod 400"
  define b where "b = q div 100"
  define q' where "q' = q mod 100"
  define c where "c = q' div 4"
  define e where "e = q' mod 4"
  define L where "L = is_leap y"
  define doy where "doy = DAYS_BEFORE_MONTH ! nat m + (if m > 2 \<and> L then 1 else 0) + d"
  have 1: "400 * a + q = y - 1" "0 \<le> q" "q < 400" by (simp_all add: a_def q_def)
  have 2: "100 * b + q' = q" "0 \<le> q'" "q' < 100" by (simp_all add: b_def q'_def)
  have 3: "4 * c + e = q'" "0 \<le> e" "e < 4" by (simp_all add: c_def e_def)
  have digits: "0 \<le> a" "0 \<le> b" "b \<le> 3" "0 \<le> c" "c \<le> 24" "0 \<le> e" "e \<le> 3"
    using assms(1) 1 2 3 by linarith+
  have y: "y = 400 * a + 100 * b + 4 * c + e + 1"
    using 1 2 3 by linarith
  have dby: "days_before_year y = 146097 * a + 36524 * b + 1461 * c + 365 * e"
    unfolding y using digits by (intro days_before_year_digits) simp_all
  have leap: "L \<longleftrightarrow> e = 3 \<and> (c \<noteq> 24 \<or> b = 3)"
    unfolding L_def y using digits by (intro is_leap_digits) simp_all
  have v: "1 \<le> m" "m \<le> 12" "1 \<le> d" "d \<le> (if m = 2 \<and> L then 29 else DAYS_IN_MONTH ! nat m)"
    using assms(2) by (simp_all add: valid_date_def days_in_month_def L_def)
  have ord: "ymd2ord y m d - 1 = 146097 * a + 36524 * b + 1461 * c + 365 * e + (doy - 1)"
    by (simp add: ymd2ord_def dby days_before_month_def doy_def L_def)
  have "0 \<le> DAYS_BEFORE_MONTH ! nat m"
    using int_1_12 [OF v(1,2)] unfolding DAYS_BEFORE_MONTH_def by (elim disjE; simp)
  with v have doy1: "1 \<le> doy" by (simp add: doy_def)
  from day_of_year_bound [OF v] consider (normal) "doy \<le> 365" | (last) "L" "m = 12" "d = 31"
    unfolding doy_def by blast
  then show ?thesis
  proof cases
    case normal
    have "ord2ymd (ymd2ord y m d) =
      (if e = 4 \<or> b = 4 then (400 * a + 100 * b + 4 * c + e, 12, 31)
       else case month_day (e = 3 \<and> (c \<noteq> 24 \<or> b = 3)) (doy - 1) of
              (m, d) \<Rightarrow> (400 * a + 100 * b + 4 * c + e + 1, m, d))"
      using digits normal doy1 by (intro ord2ymd_digits [OF ord]) linarith+
    moreover have "month_day L (doy - 1) = (m, d)"
      unfolding doy_def using v normal by (intro month_day_inverse) (simp_all add: doy_def)
    then have "month_day (e = 3 \<and> (c \<noteq> 24 \<or> b = 3)) (doy - 1) = (m, d)"
      unfolding leap .
    ultimately show ?thesis
      using digits by (simp add: y)
  next
    case last
    then have doy: "doy = 366"
      by (simp add: doy_def DAYS_BEFORE_MONTH_def)
    from last leap have e3: "e = 3" by simp
    show ?thesis
    proof (cases "c = 24")
      case False
      with digits have c23: "c \<le> 23" by simp
      have "ymd2ord y m d - 1 = 146097 * a + 36524 * b + 1461 * c + 365 * 4 + 0"
        using ord doy e3 by simp
      then have "ord2ymd (ymd2ord y m d) =
        (if (4::int) = 4 \<or> b = 4 then (400 * a + 100 * b + 4 * c + 4, 12, 31)
         else case month_day ((4::int) = 3 \<and> (c \<noteq> 24 \<or> b = 3)) 0 of
              (m, d) \<Rightarrow> (400 * a + 100 * b + 4 * c + 4 + 1, m, d))"
        using digits c23 by (intro ord2ymd_digits) linarith+
      then show ?thesis using last e3 by (simp add: y)
    next
      case True
      with last leap have b3: "b = 3" by simp
      have "ymd2ord y m d - 1 = 146097 * a + 36524 * 4 + 1461 * 0 + 365 * 0 + 0"
        using ord doy e3 True b3 by simp
      then have "ord2ymd (ymd2ord y m d) =
        (if (0::int) = 4 \<or> (4::int) = 4 then (400 * a + 100 * 4 + 4 * 0 + 0, 12, 31)
         else case month_day ((0::int) = 3 \<and> ((0::int) \<noteq> 24 \<or> (4::int) = 3)) 0 of
              (m, d) \<Rightarrow> (400 * a + 100 * 4 + 4 * 0 + 0 + 1, m, d))"
        by (intro ord2ymd_digits) simp_all
      then show ?thesis using last e3 True b3 by (simp add: y)
    qed
  qed
qed

subsection \<open>Digits and decimal numerals\<close>

lemma code_digit_char: "n < 10 \<Longrightarrow> code (digit_char n) = 48 + n"
  by (simp add: code_def digit_char_def)

lemma is_digit_iff: "is_digit c \<longleftrightarrow> 48 \<le> code c \<and> code c \<le> 57"
  by (simp add: is_digit_def between_def code_def)

lemma is_digit_digit_char [simp]: "n < 10 \<Longrightarrow> is_digit (digit_char n)"
  by (simp add: is_digit_iff code_digit_char)

lemma digit_val_digit_char [simp]: "n < 10 \<Longrightarrow> digit_val (digit_char n) = n"
  by (simp add: digit_val_def code_digit_char)

lemma digit_char_digit_val [simp]: "is_digit c \<Longrightarrow> digit_char (digit_val c) = c"
  by (simp add: is_digit_iff digit_val_def digit_char_def code_def)

lemma digit_val_less [simp]: "is_digit c \<Longrightarrow> digit_val c < 10"
  by (auto simp: is_digit_iff digit_val_def)

lemma digit_char_inj: "m < 10 \<Longrightarrow> n < 10 \<Longrightarrow> digit_char m = digit_char n \<longleftrightarrow> m = n"
  by (metis digit_val_digit_char)

lemma digit_char_numerals:
  "digit_char 0 = CHR ''0''" "digit_char 1 = CHR ''1''" "digit_char 2 = CHR ''2''"
  "digit_char 3 = CHR ''3''" "digit_char (Suc 0) = CHR ''1''"
  by code_simp+

lemma digit_char_0: "digit_char 0 = CHR ''0''"
  by (rule digit_char_numerals)

lemma between_digits:
  "between CHR ''0'' CHR ''1'' c \<longleftrightarrow> is_digit c \<and> digit_val c \<le> 1"
  "between CHR ''0'' CHR ''2'' c \<longleftrightarrow> is_digit c \<and> digit_val c \<le> 2"
  "between CHR ''0'' CHR ''3'' c \<longleftrightarrow> is_digit c \<and> digit_val c \<le> 3"
  "between CHR ''0'' CHR ''5'' c \<longleftrightarrow> is_digit c \<and> digit_val c \<le> 5"
  "between CHR ''1'' CHR ''2'' c \<longleftrightarrow> is_digit c \<and> 1 \<le> digit_val c \<and> digit_val c \<le> 2"
  "between CHR ''1'' CHR ''9'' c \<longleftrightarrow> is_digit c \<and> 1 \<le> digit_val c"
  by (auto simp: is_digit_iff between_def digit_val_def code_def)

lemma char_eq_digit_char:
  "n < 10 \<Longrightarrow> c = digit_char n \<longleftrightarrow> is_digit c \<and> digit_val c = n"
  by (metis digit_char_digit_val is_digit_digit_char digit_val_digit_char)

lemma char_eq_digit:
  "c = CHR ''0'' \<longleftrightarrow> is_digit c \<and> digit_val c = 0"
  "c = CHR ''1'' \<longleftrightarrow> is_digit c \<and> digit_val c = 1"
  "c = CHR ''2'' \<longleftrightarrow> is_digit c \<and> digit_val c = 2"
  "c = CHR ''3'' \<longleftrightarrow> is_digit c \<and> digit_val c = 3"
  using char_eq_digit_char [of 0 c] char_eq_digit_char [of 1 c] char_eq_digit_char [of 2 c]
    char_eq_digit_char [of 3 c]
  by (simp_all add: digit_char_numerals)

lemma not_digit:
  "\<not> is_digit CHR ''-''" "\<not> is_digit CHR '':''" "\<not> is_digit CHR '' ''"
  "is_space c \<Longrightarrow> \<not> is_digit c" "is_space CHR '' ''" "\<not> is_space CHR ''-''"
  by (auto simp: is_digit_iff is_space_def code_def)

lemma zdec_small: "n < 10 \<Longrightarrow> zdec w n = replicate (w - 1) CHR ''0'' @ [digit_char n]"
  by (simp add: zdec.simps)

lemma zdec_0_1: "n < 10 \<Longrightarrow> zdec 0 n = [digit_char n]"
  by (simp add: zdec_small)

lemma zdec_2: "n < 100 \<Longrightarrow> zdec 2 n = [digit_char (n div 10), digit_char (n mod 10)]"
  by (subst zdec.simps) (auto simp: zdec_small digit_char_0 numeral_2_eq_2)

lemma zdec_0_2: "10 \<le> n \<Longrightarrow> n < 100 \<Longrightarrow> zdec 0 n = [digit_char (n div 10), digit_char (n mod 10)]"
  by (subst zdec.simps) (auto simp: zdec_small)

lemma replicate_small: "replicate 2 c = [c, c]" "replicate 3 c = [c, c, c]"
  by (simp_all add: numeral_2_eq_2 numeral_3_eq_3)

lemma zdec_4:
  assumes n: "n < 10000"
  shows "zdec 4 n = [digit_char (n div 1000), digit_char (n div 100 mod 10),
                     digit_char (n div 10 mod 10), digit_char (n mod 10)]"
proof (cases "n < 10")
  case True
  then show ?thesis by (simp add: zdec_small digit_char_0 replicate_small)
next
  case n10: False
  have 1: "zdec 4 n = zdec 3 (n div 10) @ [digit_char (n mod 10)]"
    using n10 by (subst zdec.simps) simp
  show ?thesis
  proof (cases "n < 100")
    case True
    then have "n div 10 < 10" "n div 1000 = 0" "n div 100 = 0" by simp_all
    then show ?thesis
      unfolding 1 by (simp add: zdec_small [of "n div 10"] digit_char_0 replicate_small)
  next
    case n100: False
    have 2: "zdec 3 (n div 10) = zdec 2 (n div 10 div 10) @ [digit_char (n div 10 mod 10)]"
    proof -
      from n100 have "\<not> n div 10 < 10" by arith
      then show ?thesis by (subst zdec.simps) simp
    qed
    have 3: "zdec 2 (n div 10 div 10)
               = [digit_char (n div 10 div 10 div 10), digit_char (n div 10 div 10 mod 10)]"
      using n by (intro zdec_2) simp
    show ?thesis
      unfolding 1 2 3 by (simp add: div_mult2_eq [symmetric])
  qed
qed


lemma zdec_2_iff:
  assumes "x < 100"
  shows "[a, b] = zdec 2 x \<longleftrightarrow> is_digit a \<and> is_digit b \<and> x = 10 * digit_val a + digit_val b"
proof
  assume "[a, b] = zdec 2 x"
  with assms have ab: "a = digit_char (x div 10)" "b = digit_char (x mod 10)"
    by (simp_all add: zdec_2)
  from assms have "x div 10 < 10" by simp
  with ab show "is_digit a \<and> is_digit b \<and> x = 10 * digit_val a + digit_val b"
    by simp
next
  assume "is_digit a \<and> is_digit b \<and> x = 10 * digit_val a + digit_val b"
  then show "[a, b] = zdec 2 x"
    using assms by (simp add: zdec_2)
qed

lemma zdec_0_iff:
  assumes "x < 10"
  shows "[a] = zdec 0 x \<longleftrightarrow> is_digit a \<and> x = digit_val a"
  using assms by (auto simp: zdec_0_1)

lemma decimal_4:
  fixes x :: nat
  shows "x = 1000 * (x div 1000) + 100 * (x div 100 mod 10) + 10 * (x div 10 mod 10) + x mod 10"
proof -
  define q1 r0 q2 r1 q3 r2 where "q1 = x div 10" and "r0 = x mod 10" and "q2 = q1 div 10"
    and "r1 = q1 mod 10" and "q3 = q2 div 10" and "r2 = q2 mod 10"
  have "x = 10 * q1 + r0" "q1 = 10 * q2 + r1" "q2 = 10 * q3 + r2"
    by (simp_all add: q1_def r0_def q2_def r1_def q3_def r2_def)
  then have "x = 1000 * q3 + 100 * r2 + 10 * r1 + r0"
    by linarith
  moreover have "q2 = x div 100" "q3 = x div 1000"
    by (simp_all add: q1_def q2_def q3_def div_mult2_eq [symmetric])
  ultimately show ?thesis
    by (simp add: q1_def r0_def r1_def r2_def)
qed

lemma decimal_4_unique:
  fixes a b c d :: nat
  assumes "a < 10" "b < 10" "c < 10" "d < 10" and x: "x = 1000 * a + 100 * b + 10 * c + d"
  shows "x div 1000 = a" "x div 100 mod 10 = b" "x div 10 mod 10 = c" "x mod 10 = d"
proof -
  define q q' where "q = 100 * a + 10 * b + c" and "q' = 10 * a + b"
  have 1: "x = 10 * q + d" by (simp add: q_def x)
  have 2: "q = 10 * q' + c" by (simp add: q_def q'_def)
  have 3: "x div 10 = q" "q div 10 = q'" "q' div 10 = a"
    using assms(1-4) by (simp_all add: 1 2 q'_def)
  have 4: "x div 100 = q'" "x div 1000 = a"
    using 3 div_mult2_eq [of x 10 10] div_mult2_eq [of x 10 100] div_mult2_eq [of q 10 10]
    by simp_all
  show "x div 1000 = a" by (rule 4)
  show "x div 100 mod 10 = b" using assms(2) by (simp add: 4 q'_def)
  show "x div 10 mod 10 = c" using assms(3) by (simp add: 3 2)
  show "x mod 10 = d" using assms(4) by (simp add: 1)
qed

lemma zdec_4_iff:
  assumes "x < 10000"
  shows "[a, b, c, d] = zdec 4 x \<longleftrightarrow>
           is_digit a \<and> is_digit b \<and> is_digit c \<and> is_digit d
           \<and> x = 1000 * digit_val a + 100 * digit_val b + 10 * digit_val c + digit_val d"
proof
  assume "[a, b, c, d] = zdec 4 x"
  with assms have *: "a = digit_char (x div 1000)" "b = digit_char (x div 100 mod 10)"
    "c = digit_char (x div 10 mod 10)" "d = digit_char (x mod 10)"
    by (simp_all add: zdec_4)
  from assms have "x div 1000 < 10" by simp
  with * have "is_digit a" "is_digit b" "is_digit c" "is_digit d"
    and "digit_val a = x div 1000" "digit_val b = x div 100 mod 10"
    "digit_val c = x div 10 mod 10" "digit_val d = x mod 10"
    by simp_all
  then show "is_digit a \<and> is_digit b \<and> is_digit c \<and> is_digit d
           \<and> x = 1000 * digit_val a + 100 * digit_val b + 10 * digit_val c + digit_val d"
    using decimal_4 [of x] by simp
next
  assume r: "is_digit a \<and> is_digit b \<and> is_digit c \<and> is_digit d
           \<and> x = 1000 * digit_val a + 100 * digit_val b + 10 * digit_val c + digit_val d"
  then have lt: "digit_val a < 10" "digit_val b < 10" "digit_val c < 10" "digit_val d < 10"
    by simp_all
  from decimal_4_unique [OF lt] r
  have "x div 1000 = digit_val a" "x div 100 mod 10 = digit_val b"
    "x div 10 mod 10 = digit_val c" "x mod 10 = digit_val d"
    by simp_all
  with r show "[a, b, c, d] = zdec 4 x"
    using assms by (simp add: zdec_4)
qed


lemma mem_rx_one:
  "(x, r) \<in> set (rx_one p s) \<longleftrightarrow> (\<exists>a. s = a # r \<and> p a \<and> x = digit_val a)"
  by (induct p s rule: rx_one.induct) auto

lemma mem_rx_two:
  "(x, r) \<in> set (rx_two p q s) \<longleftrightarrow>
     (\<exists>a b. s = a # b # r \<and> p a \<and> q b \<and> x = 10 * digit_val a + digit_val b)"
  by (induct p q s rule: rx_two.induct) auto

lemma mem_rx_blank_one:
  "(x, r) \<in> set (rx_blank_one q s) \<longleftrightarrow>
     (\<exists>b. s = CHR '' '' # b # r \<and> q b \<and> x = digit_val b)"
  by (induct q s rule: rx_blank_one.induct) auto

lemma mem_rx_lit: "r \<in> set (rx_lit c s) \<longleftrightarrow> s = c # r"
  by (induct c s rule: rx_lit.induct) auto

lemma mem_rx_Y:
  "(x, r) \<in> set (rx_Y s) \<longleftrightarrow> x \<le> 9999 \<and> s = zdec 4 x @ r"
proof -
  have "(x, r) \<in> set (rx_Y s) \<longleftrightarrow>
      (\<exists>a b c d. s = a # b # c # d # r \<and> is_digit a \<and> is_digit b \<and> is_digit c \<and> is_digit d
         \<and> x = 1000 * digit_val a + 100 * digit_val b + 10 * digit_val c + digit_val d)"
    by (induct s rule: rx_Y.induct) auto
  also have "\<dots> \<longleftrightarrow> x \<le> 9999 \<and> s = zdec 4 x @ r"
  proof
    assume "\<exists>a b c d. s = a # b # c # d # r \<and> is_digit a \<and> is_digit b \<and> is_digit c \<and> is_digit d
         \<and> x = 1000 * digit_val a + 100 * digit_val b + 10 * digit_val c + digit_val d"
    then obtain a b c d where s: "s = a # b # c # d # r"
      and d: "is_digit a" "is_digit b" "is_digit c" "is_digit d"
      and x: "x = 1000 * digit_val a + 100 * digit_val b + 10 * digit_val c + digit_val d"
      by blast
    from d have "digit_val a < 10" "digit_val b < 10" "digit_val c < 10" "digit_val d < 10"
      by simp_all
    with x have le: "x \<le> 9999" by linarith
    then have "[a, b, c, d] = zdec 4 x"
      using d x by (subst zdec_4_iff) simp_all
    with s le show "x \<le> 9999 \<and> s = zdec 4 x @ r"
      by (metis append_Cons append_Nil)
  next
    assume r: "x \<le> 9999 \<and> s = zdec 4 x @ r"
    then have lt: "x < 10000" by simp
    define a b c d where "a = digit_char (x div 1000)" and "b = digit_char (x div 100 mod 10)"
      and "c = digit_char (x div 10 mod 10)" and "d = digit_char (x mod 10)"
    have z: "[a, b, c, d] = zdec 4 x"
      using lt by (simp add: zdec_4 a_def b_def c_def d_def)
    with lt have "is_digit a \<and> is_digit b \<and> is_digit c \<and> is_digit d
           \<and> x = 1000 * digit_val a + 100 * digit_val b + 10 * digit_val c + digit_val d"
      by (simp add: zdec_4_iff)
    moreover from r z have "s = a # b # c # d # r"
      by (metis append_Cons append_Nil)
    ultimately show "\<exists>a b c d. s = a # b # c # d # r \<and> is_digit a \<and> is_digit b \<and> is_digit c
         \<and> is_digit d
         \<and> x = 1000 * digit_val a + 100 * digit_val b + 10 * digit_val c + digit_val d"
      by blast
  qed
  finally show ?thesis .
qed

lemma spellings_iff:
  assumes "x < 100"
  shows "s = sp @ r \<and> sp \<in> set (spellings x) \<longleftrightarrow>
     (\<exists>a b. s = a # b # r \<and> sp = [a, b] \<and> is_digit a \<and> is_digit b
              \<and> x = 10 * digit_val a + digit_val b)
     \<or> (\<exists>a. s = a # r \<and> sp = [a] \<and> is_digit a \<and> x = digit_val a)"
proof (cases "x < 10")
  case True
  have 2: "zdec 2 x = [digit_char 0, digit_char x]"
    using True by (simp add: zdec_2)
  have 1: "zdec 0 x = [digit_char x]"
    using True by (simp add: zdec_0_1)
  show ?thesis
    using True unfolding spellings_def 1 2
    by (auto simp: char_eq_digit_char)
next
  case False
  have 2: "zdec 2 x = [digit_char (x div 10), digit_char (x mod 10)]"
    using assms by (simp add: zdec_2)
  from assms have "x div 10 < 10" by simp
  then show ?thesis
    using False assms unfolding spellings_def 2
    by (auto simp: char_eq_digit_char)
qed


lemma spelled_iff:
  assumes "x < 100"
  shows "(\<exists>sp \<in> set (spellings x). s = sp @ r) \<longleftrightarrow>
     (\<exists>a b. s = a # b # r \<and> is_digit a \<and> is_digit b \<and> x = 10 * digit_val a + digit_val b)
     \<or> (\<exists>a. s = a # r \<and> is_digit a \<and> x = digit_val a)"
    (is "?L \<longleftrightarrow> ?R2 \<or> ?R1")
proof
  assume ?L
  then obtain sp where "s = sp @ r \<and> sp \<in> set (spellings x)" by blast
  then show "?R2 \<or> ?R1"
    unfolding spellings_iff [OF assms] by blast
next
  assume "?R2 \<or> ?R1"
  then show ?L
  proof
    assume ?R2
    then obtain a b where "s = a # b # r \<and> [a, b] = [a, b] \<and> is_digit a \<and> is_digit b
              \<and> x = 10 * digit_val a + digit_val b" by blast
    then have "s = [a, b] @ r \<and> [a, b] \<in> set (spellings x)"
      unfolding spellings_iff [OF assms] by blast
    then show ?L by blast
  next
    assume ?R1
    then obtain a where "s = a # r \<and> [a] = [a] \<and> is_digit a \<and> x = digit_val a" by blast
    then have "s = [a] @ r \<and> [a] \<in> set (spellings x)"
      unfolding spellings_iff [OF assms] by blast
    then show ?L by blast
  qed
qed

lemma mem_rx_m:
  "(x, r) \<in> set (rx_m s) \<longleftrightarrow> 1 \<le> x \<and> x \<le> 12 \<and> (\<exists>sp \<in> set (spellings x). s = sp @ r)"
proof (cases "x < 100")
  case True
  show ?thesis
    unfolding spelled_iff [OF True] rx_m_def set_append Un_iff mem_rx_two mem_rx_one
      between_digits char_eq_digit
    by (auto dest: digit_val_less)
next
  case False
  then show ?thesis
    unfolding rx_m_def set_append Un_iff mem_rx_two mem_rx_one between_digits char_eq_digit
    by (auto dest: digit_val_less)
qed


lemma mem_rx_H:
  "(x, r) \<in> set (rx_H s) \<longleftrightarrow> x \<le> 23 \<and> (\<exists>sp \<in> set (spellings x). s = sp @ r)"
proof (cases "x < 100")
  case True
  show ?thesis
    unfolding spelled_iff [OF True] rx_H_def set_append Un_iff mem_rx_two mem_rx_one
      between_digits char_eq_digit
    by (auto dest: digit_val_less)
next
  case False
  then show ?thesis
    unfolding rx_H_def set_append Un_iff mem_rx_two mem_rx_one between_digits char_eq_digit
    by (auto dest: digit_val_less)
qed

lemma mem_rx_M:
  "(x, r) \<in> set (rx_M s) \<longleftrightarrow> x \<le> 59 \<and> (\<exists>sp \<in> set (spellings x). s = sp @ r)"
proof (cases "x < 100")
  case True
  show ?thesis
    unfolding spelled_iff [OF True] rx_M_def set_append Un_iff mem_rx_two mem_rx_one
      between_digits char_eq_digit
    by (auto dest: digit_val_less)
next
  case False
  then show ?thesis
    unfolding rx_M_def set_append Un_iff mem_rx_two mem_rx_one between_digits char_eq_digit
    by (auto dest: digit_val_less)
qed

lemma day_spelled_iff:
  "(\<exists>sp \<in> set (day_spellings x). s = sp @ r) \<longleftrightarrow>
     (\<exists>sp \<in> set (spellings x). s = sp @ r)
     \<or> (\<exists>b. s = CHR '' '' # b # r \<and> is_digit b \<and> x = digit_val b)"
proof (cases "x < 10")
  case True
  then have "zdec 0 x = [digit_char x]" by (simp add: zdec_0_1)
  with True show ?thesis
    unfolding day_spellings_def
    by (auto simp: char_eq_digit_char)
next
  case False
  then show ?thesis
    unfolding day_spellings_def by (auto dest: digit_val_less)
qed

lemma mem_rx_d_two:
  "(x, r) \<in> set (rx_two (\<lambda>c. c = CHR ''3'') (between CHR ''0'' CHR ''1'') s
                   @ rx_two (between CHR ''1'' CHR ''2'') is_digit s
                   @ rx_two (\<lambda>c. c = CHR ''0'') (between CHR ''1'' CHR ''9'') s) \<longleftrightarrow>
     1 \<le> x \<and> x \<le> 31
     \<and> (\<exists>a b. s = a # b # r \<and> is_digit a \<and> is_digit b \<and> x = 10 * digit_val a + digit_val b)"
  unfolding set_append Un_iff mem_rx_two between_digits char_eq_digit
  by (auto dest: digit_val_less)

lemma mem_rx_d_one:
  "(x, r) \<in> set (rx_one (between CHR ''1'' CHR ''9'') s
                   @ rx_blank_one (between CHR ''1'' CHR ''9'') s) \<longleftrightarrow>
     1 \<le> x \<and> ((\<exists>a. s = a # r \<and> is_digit a \<and> x = digit_val a)
               \<or> (\<exists>b. s = CHR '' '' # b # r \<and> is_digit b \<and> x = digit_val b))"
  unfolding set_append Un_iff mem_rx_one mem_rx_blank_one between_digits
  by auto

lemma mem_rx_d:
  "(x, r) \<in> set (rx_d s) \<longleftrightarrow>
     1 \<le> x \<and> x \<le> 31 \<and> (\<exists>sp \<in> set (day_spellings x). s = sp @ r)"
proof -
  have split: "rx_d s =
      (rx_two (\<lambda>c. c = CHR ''3'') (between CHR ''0'' CHR ''1'') s
         @ rx_two (between CHR ''1'' CHR ''2'') is_digit s
         @ rx_two (\<lambda>c. c = CHR ''0'') (between CHR ''1'' CHR ''9'') s)
      @ (rx_one (between CHR ''1'' CHR ''9'') s
         @ rx_blank_one (between CHR ''1'' CHR ''9'') s)"
    by (simp add: rx_d_def)
  define D2 where "D2 \<longleftrightarrow> (\<exists>a b. s = a # b # r \<and> is_digit a \<and> is_digit b
                               \<and> x = 10 * digit_val a + digit_val b)"
  define D1 where "D1 \<longleftrightarrow> (\<exists>a. s = a # r \<and> is_digit a \<and> x = digit_val a)"
  define B where "B \<longleftrightarrow> (\<exists>b. s = CHR '' '' # b # r \<and> is_digit b \<and> x = digit_val b)"
  have L: "(x, r) \<in> set (rx_d s) \<longleftrightarrow> (1 \<le> x \<and> x \<le> 31 \<and> D2) \<or> (1 \<le> x \<and> (D1 \<or> B))"
    unfolding split set_append [of "_ @ _ @ _" "_ @ _"] Un_iff mem_rx_d_two mem_rx_d_one
      D2_def D1_def B_def ..
  have small: "x \<le> 9" if "D1 \<or> B"
    using that digit_val_less unfolding D1_def B_def by (auto simp: less_Suc_eq_le [symmetric])
  show ?thesis
  proof (cases "x < 100")
    case True
    have R: "(\<exists>sp \<in> set (day_spellings x). s = sp @ r) \<longleftrightarrow> (D2 \<or> D1) \<or> B"
      unfolding day_spelled_iff spelled_iff [OF True] D2_def D1_def B_def ..
    show ?thesis unfolding L R using small by auto
  next
    case False
    have "\<not> D2"
    proof
      assume D2
      then obtain a b where "is_digit a" "is_digit b" "x = 10 * digit_val a + digit_val b"
        unfolding D2_def by blast
      with digit_val_less [of a] digit_val_less [of b] False show False by linarith
    qed
    moreover have "\<not> D1" "\<not> B"
      using False small by auto
    moreover have "\<not> x \<le> 31" using False by simp
    ultimately show ?thesis unfolding L by simp
  qed
qed

lemma mem_rx_spaces:
  "r \<in> set (rx_spaces s) \<longleftrightarrow> (\<exists>ws. ws \<noteq> [] \<and> (\<forall>c \<in> set ws. is_space c) \<and> s = ws @ r)"
proof
  assume "r \<in> set (rx_spaces s)"
  then obtain k where k: "1 \<le> k" "k \<le> length (takeWhile is_space s)" and r: "r = drop k s"
    by (auto simp: rx_spaces_def)
  have "take k s = take k (takeWhile is_space s)"
    using k(2) takeWhile_dropWhile_id [of is_space s]
    by (metis append_eq_conv_conj take_append min.absorb2 diff_is_0_eq take_0 append_Nil2
        length_take take_take)
  then have "\<forall>c \<in> set (take k s). is_space c"
    by (metis in_set_takeD set_takeWhileD)
  moreover have "take k s \<noteq> []"
    using k by auto
  moreover have "s = take k s @ r"
    by (simp add: r)
  ultimately show "\<exists>ws. ws \<noteq> [] \<and> (\<forall>c \<in> set ws. is_space c) \<and> s = ws @ r"
    by blast
next
  assume "\<exists>ws. ws \<noteq> [] \<and> (\<forall>c \<in> set ws. is_space c) \<and> s = ws @ r"
  then obtain ws where ws: "ws \<noteq> []" "\<forall>c \<in> set ws. is_space c" "s = ws @ r"
    by blast
  then have "takeWhile is_space s = ws @ takeWhile is_space r"
    by (simp add: takeWhile_append2)
  then have "length ws \<le> length (takeWhile is_space s)" "1 \<le> length ws"
    using ws(1) by (simp_all add: Suc_le_eq)
  then have "length ws \<in> set (rev [1 ..< Suc (length (takeWhile is_space s))])"
    by auto
  moreover have "r = drop (length ws) s"
    by (simp add: ws(3))
  ultimately have "r \<in> (\<lambda>k. drop k s) ` set (rev [1 ..< Suc (length (takeWhile is_space s))])"
    by (rule image_eqI [rotated])
  then show "r \<in> set (rx_spaces s)"
    unfolding rx_spaces_def set_map .
qed


lemma bind_singleton [simp]: "List.bind [x] f = f x"
  by (simp add: List.bind_def)

lemma bind_Nil [simp]: "List.bind [] f = []"
  by (simp add: List.bind_def)

lemma bind_append: "List.bind (xs @ ys) f = List.bind xs f @ List.bind ys f"
  by (simp add: List.bind_def)

lemma rx_lit_simps: "rx_lit c s = (if s \<noteq> [] \<and> hd s = c then [tl s] else [])"
  by (cases s) auto

lemma one_lit: "List.bind (rx_lit c s) f = [] \<or> (\<exists>r. List.bind (rx_lit c s) f = f r)"
  by (auto simp: rx_lit_simps)

lemma one_Y:
  "List.bind (rx_Y s) (\<lambda>(Y, r). f Y r) = []
   \<or> (\<exists>Y r. List.bind (rx_Y s) (\<lambda>(Y, r). f Y r) = f Y r)"
  by (induct s rule: rx_Y.induct) auto

lemma one_m_dash:
  "List.bind (rx_m s) (\<lambda>(m, s'). List.bind (rx_lit CHR ''-'' s') (f m)) = []
   \<or> (\<exists>m r. List.bind (rx_m s) (\<lambda>(m, s'). List.bind (rx_lit CHR ''-'' s') (f m)) = f m r)"
proof (cases s)
  case Nil
  then show ?thesis by (simp add: rx_m_def)
next
  case (Cons a s1)
  show ?thesis
  proof (cases s1)
    case Nil
    with Cons show ?thesis by (simp add: rx_m_def)
  next
    case (Cons b r)
    with \<open>s = a # s1\<close> show ?thesis
      by (auto simp: rx_m_def bind_append between_def code_def rx_lit_simps)
  qed
qed

lemma one_H_colon:
  "List.bind (rx_H s) (\<lambda>(m, s'). List.bind (rx_lit CHR '':'' s') (f m)) = []
   \<or> (\<exists>m r. List.bind (rx_H s) (\<lambda>(m, s'). List.bind (rx_lit CHR '':'' s') (f m)) = f m r)"
proof (cases s)
  case Nil
  then show ?thesis by (simp add: rx_H_def)
next
  case (Cons a s1)
  show ?thesis
  proof (cases s1)
    case Nil
    with Cons show ?thesis by (simp add: rx_H_def)
  next
    case (Cons b r)
    with \<open>s = a # s1\<close> show ?thesis
      by (auto simp: rx_H_def bind_append between_def code_def is_digit_def rx_lit_simps)
  qed
qed

lemma bind_all_Nil: "(\<And>x. x \<in> set xs \<Longrightarrow> f x = []) \<Longrightarrow> List.bind xs f = []"
  by (induct xs) (simp_all add: List.bind_def)

lemma one_spaces:
  assumes "\<And>c r. is_space c \<Longrightarrow> g (c # r) = []"
  shows "List.bind (rx_spaces s) g = [] \<or> (\<exists>r. List.bind (rx_spaces s) g = g r)"
proof -
  define n where "n = length (takeWhile is_space s)"
  show ?thesis
  proof (cases n)
    case 0
    then show ?thesis by (simp add: rx_spaces_def n_def [symmetric])
  next
    case (Suc n')
    have rest: "g (drop k s) = []" if "k \<in> set (rev [1 ..< n])" for k
    proof -
      from that have k: "k < n" by simp
      then have "k < length s"
        unfolding n_def using length_takeWhile_le [of is_space s] by linarith
      then have d: "drop k s = s ! k # drop (Suc k) s"
        by (simp add: Cons_nth_drop_Suc)
      have "takeWhile is_space s ! k \<in> set (takeWhile is_space s)"
        using k unfolding n_def by (intro nth_mem)
      then have "is_space (takeWhile is_space s ! k)"
        by (rule set_takeWhileD [THEN conjunct2])
      then have "is_space (s ! k)"
        using k unfolding n_def by (simp add: takeWhile_nth)
      then show ?thesis
        unfolding d by (rule assms)
    qed
    have "rev [1 ..< Suc n] = n # rev [1 ..< n]"
      using Suc by simp
    then have "rx_spaces s = drop n s # map (\<lambda>k. drop k s) (rev [1 ..< n])"
      by (simp add: rx_spaces_def n_def [symmetric])
    then have "List.bind (rx_spaces s) g
                 = g (drop n s) @ List.bind (map (\<lambda>k. drop k s) (rev [1 ..< n])) g"
      by (simp add: List.bind_def)
    also have "List.bind (map (\<lambda>k. drop k s) (rev [1 ..< n])) g = []"
      using rest by (intro bind_all_Nil) auto
    finally show ?thesis by auto
  qed
qed

lemma rx_spaces_Nil: "s = [] \<or> \<not> is_space (hd s) \<Longrightarrow> rx_spaces s = []"
  by (cases s) (auto simp: rx_spaces_def)

lemma rx_H_space: "is_space c \<Longrightarrow> rx_H (c # r) = []"
  by (cases r) (auto simp: rx_H_def not_digit between_digits char_eq_digit)

lemma one_d_spaces:
  "List.bind (rx_d s) (\<lambda>(d, s'). List.bind (rx_spaces s') (g d)) = []
   \<or> (\<exists>d r. List.bind (rx_d s) (\<lambda>(d, s'). List.bind (rx_spaces s') (g d))
              = List.bind (rx_spaces r) (g d))"
proof (cases s)
  case Nil
  then show ?thesis by (simp add: rx_d_def)
next
  case (Cons a s1)
  show ?thesis
  proof (cases s1)
    case Nil
    with Cons show ?thesis by (simp add: rx_d_def rx_spaces_Nil)
  next
    case (Cons b r)
    show ?thesis
    proof (cases "is_space b")
      case True
      then have "\<not> is_digit b" by (simp add: not_digit)
      with Cons \<open>s = a # s1\<close> show ?thesis
        by (auto simp: rx_d_def bind_append between_digits)
    next
      case False
      then have "rx_spaces (b # r) = []" by (simp add: rx_spaces_Nil)
      with Cons \<open>s = a # s1\<close> show ?thesis
        by (auto simp: rx_d_def bind_append between_digits char_eq_digit not_digit)
    qed
  qed
qed


lemma stage_Y:
  assumes "P []" and "\<And>Y r. P (f Y r)"
  shows "P (List.bind (rx_Y s) (\<lambda>(Y, r). f Y r))"
  using one_Y [of s f] assms by auto

lemma stage_lit:
  assumes "P []" and "\<And>r. P (f r)"
  shows "P (List.bind (rx_lit c s) f)"
  using one_lit [of c s f] assms by auto

lemma stage_m_dash:
  assumes "P []" and "\<And>m r. P (f m r)"
  shows "P (List.bind (rx_m s) (\<lambda>(m, s'). List.bind (rx_lit CHR ''-'' s') (f m)))"
  using one_m_dash [of s f] assms by auto

lemma stage_H_colon:
  assumes "P []" and "\<And>m r. P (f m r)"
  shows "P (List.bind (rx_H s) (\<lambda>(m, s'). List.bind (rx_lit CHR '':'' s') (f m)))"
  using one_H_colon [of s f] assms by auto

lemma stage_d_spaces:
  assumes "P []" and "\<And>d r. P (List.bind (rx_spaces r) (g d))"
  shows "P (List.bind (rx_d s) (\<lambda>(d, s'). List.bind (rx_spaces s') (g d)))"
  using one_d_spaces [of s g] assms by auto

lemma stage_spaces:
  assumes "\<And>c r. is_space c \<Longrightarrow> g (c # r) = []" and "P []" and "\<And>r. P (g r)"
  shows "P (List.bind (rx_spaces s) g)"
  using one_spaces [of g s, OF assms(1)] assms(2,3) by auto

lemma full_first_M:
  "full_first (List.bind (rx_M s) (\<lambda>(M, s). [(f M, s)]))"
proof (cases s)
  case Nil
  then show ?thesis by (simp add: rx_M_def full_first_def)
next
  case (Cons a s1)
  show ?thesis
  proof (cases s1)
    case Nil
    with Cons show ?thesis by (simp add: rx_M_def full_first_def)
  next
    case (Cons b r)
    with \<open>s = a # s1\<close> show ?thesis
      by (auto simp: rx_M_def full_first_def bind_append)
  qed
qed

lemma full_first_Nil: "full_first []"
  by (simp add: full_first_def)

lemma full_first_format_regex: "full_first (format_regex s)"
  unfolding format_regex_def
  by (intro stage_Y [where P = full_first] stage_lit [where P = full_first]
        stage_m_dash [where P = full_first] stage_d_spaces [where P = full_first]
        stage_spaces [where P = full_first] stage_H_colon [where P = full_first]
        full_first_M full_first_Nil)
     (simp add: rx_H_space)

lemma mem_bind: "z \<in> set (List.bind xs f) \<longleftrightarrow> (\<exists>x. x \<in> set xs \<and> z \<in> set (f x))"
  by (auto simp: set_list_bind)

lemma mem_format_regex:
  "((Y, m, d, H, M), rest) \<in> set (format_regex s) \<longleftrightarrow>
     Y \<le> 9999 \<and> 1 \<le> m \<and> m \<le> 12 \<and> 1 \<le> d \<and> d \<le> 31 \<and> H \<le> 23 \<and> M \<le> 59
     \<and> (\<exists>ms ds ws hs ns. ms \<in> set (spellings m) \<and> ds \<in> set (day_spellings d)
          \<and> ws \<noteq> [] \<and> list_all is_space ws
          \<and> hs \<in> set (spellings H) \<and> ns \<in> set (spellings M)
          \<and> s = zdec 4 Y @ ''-'' @ ms @ ''-'' @ ds @ ws @ hs @ '':'' @ ns @ rest)"
  (is "?L \<longleftrightarrow> ?R")
proof -
  have "?L \<longleftrightarrow>
     (\<exists>Y' r1. (Y' \<le> 9999 \<and> s = zdec 4 Y' @ r1) \<and>
      (\<exists>r2. r1 = CHR ''-'' # r2 \<and>
      (\<exists>m' r3. (1 \<le> m' \<and> m' \<le> 12 \<and> (\<exists>sp \<in> set (spellings m'). r2 = sp @ r3)) \<and>
      (\<exists>r4. r3 = CHR ''-'' # r4 \<and>
      (\<exists>d' r5. (1 \<le> d' \<and> d' \<le> 31 \<and> (\<exists>sp \<in> set (day_spellings d'). r4 = sp @ r5)) \<and>
      (\<exists>r6. (\<exists>ws. ws \<noteq> [] \<and> (\<forall>c \<in> set ws. is_space c) \<and> r5 = ws @ r6) \<and>
      (\<exists>H' r7. (H' \<le> 23 \<and> (\<exists>sp \<in> set (spellings H'). r6 = sp @ r7)) \<and>
      (\<exists>r8. r7 = CHR '':'' # r8 \<and>
      (\<exists>M' r9. (M' \<le> 59 \<and> (\<exists>sp \<in> set (spellings M'). r8 = sp @ r9)) \<and>
         ((Y, m, d, H, M), rest) \<in> set [((Y', m', d', H', M'), r9)])))))))))"
    by (simp only: format_regex_def mem_bind split_paired_Ex prod.case mem_rx_Y mem_rx_lit
          mem_rx_m mem_rx_d mem_rx_spaces mem_rx_H mem_rx_M)
  also have "\<dots> \<longleftrightarrow> ?R"
  proof (rule iffI)
    assume "\<exists>Y' r1. (Y' \<le> 9999 \<and> s = zdec 4 Y' @ r1) \<and>
      (\<exists>r2. r1 = CHR ''-'' # r2 \<and>
      (\<exists>m' r3. (1 \<le> m' \<and> m' \<le> 12 \<and> (\<exists>sp \<in> set (spellings m'). r2 = sp @ r3)) \<and>
      (\<exists>r4. r3 = CHR ''-'' # r4 \<and>
      (\<exists>d' r5. (1 \<le> d' \<and> d' \<le> 31 \<and> (\<exists>sp \<in> set (day_spellings d'). r4 = sp @ r5)) \<and>
      (\<exists>r6. (\<exists>ws. ws \<noteq> [] \<and> (\<forall>c \<in> set ws. is_space c) \<and> r5 = ws @ r6) \<and>
      (\<exists>H' r7. (H' \<le> 23 \<and> (\<exists>sp \<in> set (spellings H'). r6 = sp @ r7)) \<and>
      (\<exists>r8. r7 = CHR '':'' # r8 \<and>
      (\<exists>M' r9. (M' \<le> 59 \<and> (\<exists>sp \<in> set (spellings M'). r8 = sp @ r9)) \<and>
         ((Y, m, d, H, M), rest) \<in> set [((Y', m', d', H', M'), r9)]))))))))"
    then obtain Y' r1 r2 m' r3 r4 d' r5 r6 H' r7 r8 M' r9 ms ds ws hs ns where
      f: "Y' \<le> 9999" "1 \<le> m'" "m' \<le> 12" "1 \<le> d'" "d' \<le> 31" "H' \<le> 23" "M' \<le> 59"
        "ms \<in> set (spellings m')" "ds \<in> set (day_spellings d')" "ws \<noteq> []"
        "\<forall>c \<in> set ws. is_space c" "hs \<in> set (spellings H')" "ns \<in> set (spellings M')"
      and e: "s = zdec 4 Y' @ r1" "r1 = CHR ''-'' # r2" "r2 = ms @ r3" "r3 = CHR ''-'' # r4"
        "r4 = ds @ r5" "r5 = ws @ r6" "r6 = hs @ r7" "r7 = CHR '':'' # r8" "r8 = ns @ r9"
      and l: "((Y, m, d, H, M), rest) \<in> set [((Y', m', d', H', M'), r9)]"
      by blast
    from l have v: "Y' = Y" "m' = m" "d' = d" "H' = H" "M' = M" "r9 = rest"
      by simp_all
    have "s = zdec 4 Y @ ''-'' @ ms @ ''-'' @ ds @ ws @ hs @ '':'' @ ns @ rest"
      unfolding e v by simp
    with f show ?R
      unfolding v list_all_iff by blast
  next
    assume ?R
    then obtain ms ds ws hs ns where
      f: "Y \<le> 9999" "1 \<le> m" "m \<le> 12" "1 \<le> d" "d \<le> 31" "H \<le> 23" "M \<le> 59"
        "ms \<in> set (spellings m)" "ds \<in> set (day_spellings d)" "ws \<noteq> []"
        "\<forall>c \<in> set ws. is_space c" "hs \<in> set (spellings H)" "ns \<in> set (spellings M)"
      and s: "s = zdec 4 Y @ ''-'' @ ms @ ''-'' @ ds @ ws @ hs @ '':'' @ ns @ rest"
      unfolding list_all_iff by blast
    define r8 where "r8 = ns @ rest"
    define r7 where "r7 = CHR '':'' # r8"
    define r6 where "r6 = hs @ r7"
    define r5 where "r5 = ws @ r6"
    define r4 where "r4 = ds @ r5"
    define r3 where "r3 = CHR ''-'' # r4"
    define r2 where "r2 = ms @ r3"
    define r1 where "r1 = CHR ''-'' # r2"
    have s1: "s = zdec 4 Y @ r1"
      unfolding s r1_def r2_def r3_def r4_def r5_def r6_def r7_def r8_def by simp
    have l: "((Y, m, d, H, M), rest) \<in> set [((Y, m, d, H, M), rest)]"
      by simp
    have M9: "\<exists>M' r9. (M' \<le> 59 \<and> (\<exists>sp \<in> set (spellings M'). r8 = sp @ r9)) \<and>
         ((Y, m, d, H, M), rest) \<in> set [((Y, m, d, H, M'), r9)]"
      apply (rule exI [of _ M], rule exI [of _ rest], rule conjI)
       apply (use f(7,13) r8_def in blast)
      apply (rule l)
      done
    have H7: "\<exists>H' r7. (H' \<le> 23 \<and> (\<exists>sp \<in> set (spellings H'). r6 = sp @ r7)) \<and>
      (\<exists>r8. r7 = CHR '':'' # r8 \<and>
      (\<exists>M' r9. (M' \<le> 59 \<and> (\<exists>sp \<in> set (spellings M'). r8 = sp @ r9)) \<and>
         ((Y, m, d, H, M), rest) \<in> set [((Y, m, d, H', M'), r9)]))"
      apply (rule exI [of _ H], rule exI [of _ r7], rule conjI)
       apply (use f(6,12) r6_def in blast)
      apply (rule exI [of _ r8], rule conjI)
       apply (rule r7_def)
      apply (rule M9)
      done
    have d5: "\<exists>d' r5. (1 \<le> d' \<and> d' \<le> 31 \<and> (\<exists>sp \<in> set (day_spellings d'). r4 = sp @ r5)) \<and>
      (\<exists>r6. (\<exists>ws. ws \<noteq> [] \<and> (\<forall>c \<in> set ws. is_space c) \<and> r5 = ws @ r6) \<and>
      (\<exists>H' r7. (H' \<le> 23 \<and> (\<exists>sp \<in> set (spellings H'). r6 = sp @ r7)) \<and>
      (\<exists>r8. r7 = CHR '':'' # r8 \<and>
      (\<exists>M' r9. (M' \<le> 59 \<and> (\<exists>sp \<in> set (spellings M'). r8 = sp @ r9)) \<and>
         ((Y, m, d, H, M), rest) \<in> set [((Y, m, d', H', M'), r9)]))))"
      apply (rule exI [of _ d], rule exI [of _ r5], rule conjI)
       apply (use f(4,5,9) r4_def in blast)
      apply (rule exI [of _ r6], rule conjI)
       apply (use f(10,11) r5_def in blast)
      apply (rule H7)
      done
    have m3: "\<exists>m' r3. (1 \<le> m' \<and> m' \<le> 12 \<and> (\<exists>sp \<in> set (spellings m'). r2 = sp @ r3)) \<and>
      (\<exists>r4. r3 = CHR ''-'' # r4 \<and>
      (\<exists>d' r5. (1 \<le> d' \<and> d' \<le> 31 \<and> (\<exists>sp \<in> set (day_spellings d'). r4 = sp @ r5)) \<and>
      (\<exists>r6. (\<exists>ws. ws \<noteq> [] \<and> (\<forall>c \<in> set ws. is_space c) \<and> r5 = ws @ r6) \<and>
      (\<exists>H' r7. (H' \<le> 23 \<and> (\<exists>sp \<in> set (spellings H'). r6 = sp @ r7)) \<and>
      (\<exists>r8. r7 = CHR '':'' # r8 \<and>
      (\<exists>M' r9. (M' \<le> 59 \<and> (\<exists>sp \<in> set (spellings M'). r8 = sp @ r9)) \<and>
         ((Y, m, d, H, M), rest) \<in> set [((Y, m', d', H', M'), r9)]))))))"
      apply (rule exI [of _ m], rule exI [of _ r3], rule conjI)
       apply (use f(2,3,8) r2_def in blast)
      apply (rule exI [of _ r4], rule conjI)
       apply (rule r3_def)
      apply (rule d5)
      done
    show "\<exists>Y' r1. (Y' \<le> 9999 \<and> s = zdec 4 Y' @ r1) \<and>
      (\<exists>r2. r1 = CHR ''-'' # r2 \<and>
      (\<exists>m' r3. (1 \<le> m' \<and> m' \<le> 12 \<and> (\<exists>sp \<in> set (spellings m'). r2 = sp @ r3)) \<and>
      (\<exists>r4. r3 = CHR ''-'' # r4 \<and>
      (\<exists>d' r5. (1 \<le> d' \<and> d' \<le> 31 \<and> (\<exists>sp \<in> set (day_spellings d'). r4 = sp @ r5)) \<and>
      (\<exists>r6. (\<exists>ws. ws \<noteq> [] \<and> (\<forall>c \<in> set ws. is_space c) \<and> r5 = ws @ r6) \<and>
      (\<exists>H' r7. (H' \<le> 23 \<and> (\<exists>sp \<in> set (spellings H'). r6 = sp @ r7)) \<and>
      (\<exists>r8. r7 = CHR '':'' # r8 \<and>
      (\<exists>M' r9. (M' \<le> 59 \<and> (\<exists>sp \<in> set (spellings M'). r8 = sp @ r9)) \<and>
         ((Y, m, d, H, M), rest) \<in> set [((Y', m', d', H', M'), r9)]))))))))"
      apply (rule exI [of _ Y], rule exI [of _ r1], rule conjI)
       apply (use f(1) s1 in blast)
      apply (rule exI [of _ r2], rule conjI)
       apply (rule r1_def)
      apply (rule m3)
      done
  qed
  finally show ?thesis .
qed

subsection \<open>The timestamp validator\<close>

lemma days_in_month_bounds:
  assumes "1 \<le> m" and "m \<le> 12"
  shows "28 \<le> days_in_month y m \<and> days_in_month y m \<le> 31"
  using int_1_12 [OF assms]
  by (auto simp: days_in_month_def DAYS_IN_MONTH_def)

lemma datetime_Inr_iff:
  "datetime Y m d H M = Inr t \<longleftrightarrow>
     1 \<le> Y \<and> Y \<le> 9999 \<and> 1 \<le> m \<and> m \<le> 12 \<and> 1 \<le> d \<and> int d \<le> days_in_month (int Y) (int m)
     \<and> H \<le> 23 \<and> M \<le> 59
     \<and> t = (ymd2ord (int Y) (int m) (int d) - 1) * 86400 + int H * 3600 + int M * 60"
  by (auto simp: datetime_def)

lemma strptime_Inr_iff:
  "strptime s = Inr t \<longleftrightarrow>
     (\<exists>Y m d H M. ((Y, m, d, H, M), []) \<in> set (format_regex s) \<and> datetime Y m d H M = Inr t)"
proof
  assume a: "strptime s = Inr t"
  then obtain Y m d H M rest xs where f: "format_regex s = ((Y, m, d, H, M), rest) # xs"
    by (cases "format_regex s") (auto simp: strptime_def)
  with a have "rest = []" and dt: "datetime Y m d H M = Inr t"
    by (auto simp: strptime_def split: if_splits)
  with f have "((Y, m, d, H, M), []) \<in> set (format_regex s)"
    by simp
  with dt show "\<exists>Y m d H M. ((Y, m, d, H, M), []) \<in> set (format_regex s) \<and> datetime Y m d H M = Inr t"
    by blast
next
  assume "\<exists>Y m d H M. ((Y, m, d, H, M), []) \<in> set (format_regex s) \<and> datetime Y m d H M = Inr t"
  then obtain Y m d H M where mem: "((Y, m, d, H, M), []) \<in> set (format_regex s)"
    and dt: "datetime Y m d H M = Inr t" by blast
  from full_first_format_regex [of s] mem obtain rest
    where "format_regex s = ((Y, m, d, H, M), []) # rest"
    unfolding full_first_def by blast
  with dt show "strptime s = Inr t"
    by (simp add: strptime_def)
qed

lemma strptime_lenient: "(\<exists>t. strptime v = Inr t) \<longleftrightarrow> lenient_format v"
proof
  assume "\<exists>t. strptime v = Inr t"
  then obtain t Y m d H M where mem: "((Y, m, d, H, M), []) \<in> set (format_regex v)"
    and dt: "datetime Y m d H M = Inr t"
    unfolding strptime_Inr_iff by blast
  from mem obtain ms ds ws hs ns where
    "ms \<in> set (spellings m)" "ds \<in> set (day_spellings d)" "ws \<noteq> []" "list_all is_space ws"
    "hs \<in> set (spellings H)" "ns \<in> set (spellings M)"
    "v = zdec 4 Y @ ''-'' @ ms @ ''-'' @ ds @ ws @ hs @ '':'' @ ns @ []"
    unfolding mem_format_regex by blast
  moreover from dt have "1 \<le> Y" "Y \<le> 9999" "1 \<le> m" "m \<le> 12" "1 \<le> d"
    "int d \<le> days_in_month (int Y) (int m)" "H \<le> 23" "M \<le> 59"
    unfolding datetime_Inr_iff by simp_all
  ultimately show "lenient_format v"
    unfolding lenient_format_def append_Nil2 by blast
next
  assume "lenient_format v"
  then obtain Y m d H M ms ds ws hs ns where
    r: "1 \<le> Y" "Y \<le> 9999" "1 \<le> m" "m \<le> 12" "1 \<le> d"
    "int d \<le> days_in_month (int Y) (int m)" "H \<le> 23" "M \<le> 59"
    and sp: "ms \<in> set (spellings m)" "ds \<in> set (day_spellings d)" "ws \<noteq> []"
    "list_all is_space ws" "hs \<in> set (spellings H)" "ns \<in> set (spellings M)"
    and v: "v = zdec 4 Y @ ''-'' @ ms @ ''-'' @ ds @ ws @ hs @ '':'' @ ns"
    unfolding lenient_format_def by blast
  have "days_in_month (int Y) (int m) \<le> 31"
    using days_in_month_bounds [of "int m" "int Y"] r by simp
  with r have d31: "d \<le> 31" by simp
  have v': "v = zdec 4 Y @ ''-'' @ ms @ ''-'' @ ds @ ws @ hs @ '':'' @ ns @ []"
    using v by simp
  have "((Y, m, d, H, M), []) \<in> set (format_regex v)"
    unfolding mem_format_regex using r d31 sp v' by blast
  moreover have "\<exists>t. datetime Y m d H M = Inr t"
    unfolding datetime_Inr_iff using r by simp
  ultimately show "\<exists>t. strptime v = Inr t"
    unfolding strptime_Inr_iff by blast
qed




subsection \<open>The two times of the response\<close>

lemma year_999_strings:
  "strptime ''0999-01-01 00:00'' = Inr 31493836800"
  "strftime PlainYear 31493836800 = ''999-01-01 00:00''"
  "strftime PadsYear 31493836800 = ''0999-01-01 00:00''"
  by code_simp+

text \<open>
  C10: on a platform whose C library prints \<open>%Y\<close> without padding, the accepted and
  fully zero-padded timestamp \<open>0999-01-01 00:00\<close> comes back as \<open>999-01-01 00:00\<close>
  in \<open>original_time\<close> and \<open>converted_time\<close>: neither is in the pattern
  \<open>YYYY-MM-DD HH:MM\<close>, and \<open>original_time\<close> differs from the submitted string.
\<close>

theorem unpadded_year_in_response:
  "post_convert_time PlainYear sample_db
     \<lparr>time = ''0999-01-01 00:00'', source_timezone = ''UTC'', target_timezone = ''UTC''\<rparr>
   = Response 200 (Conversion
       \<lparr>original_time = ''999-01-01 00:00'', converted_time = ''999-01-01 00:00'',
        source_timezone = ''UTC'', target_timezone = ''UTC''\<rparr>)
   \<and> fixed_pattern ''0999-01-01 00:00'' \<and> \<not> fixed_pattern ''999-01-01 00:00''"
proof -
  have "validate_request sample_db
     \<lparr>time = ''0999-01-01 00:00'', source_timezone = ''UTC'', target_timezone = ''UTC''\<rparr> = []"
    by (simp add: validate_request_def validate_time_format_def validate_timezone_def
          field_errors_def sample_db_names year_999_strings)
  moreover have "convert_time PlainYear sample_db
     \<lparr>time = ''0999-01-01 00:00'', source_timezone = ''UTC'', target_timezone = ''UTC''\<rparr>
    = Inr \<lparr>original_time = ''999-01-01 00:00'', converted_time = ''999-01-01 00:00'',
        source_timezone = ''UTC'', target_timezone = ''UTC''\<rparr>"
    by (simp add: convert_time_def year_999_strings timezone_UTC astimezone_def)
  moreover have "fixed_pattern ''0999-01-01 00:00''" "\<not> fixed_pattern ''999-01-01 00:00''"
    by code_simp+
  ultimately show ?thesis
    by (simp add: post_convert_time_def)
qed

subsection \<open>Repeating a request\<close>

lemma serve_root_stateless: "fst (serve pyd pf db GET_root l) = get_root"
  by simp

lemma serve_convert_time_stateless:
  "fst (serve pyd pf db (POST_convert_time request) l) = post_convert_time pf db request"
  by simp

lemma serve_timezones_pydantic1:
  "fst (serve Pydantic1 pf db GET_timezones l) = Response 200 (Timezones (map fst db))"
  by (simp add: get_timezones_pydantic1)

text \<open>
  C9: the answers of the health check and of \<open>/convert-time\<close> do not depend on what the
  process has done before, and neither does the answer of \<open>/timezones\<close> where the response
  model iterates over the list (the three lemmas above). Where the response model copies
  the storage of the lazily loaded list, the same request \<open>GET /timezones\<close> gets two
  different answers from one process: the empty list as the first request, and all names
  after any \<open>POST /convert-time\<close> whose body reached the validators.
\<close>

theorem timezones_answer_changes:
  "serve_all Pydantic2 pf sample_db
     [GET_timezones, POST_convert_time request, GET_timezones] Unloaded
   = [Response 200 (Timezones []),
      post_convert_time pf sample_db request,
      Response 200 (Timezones
        [''America/New_York'', ''Asia/Kolkata'', ''Etc/GMT-14'', ''Etc/GMT+12'', ''UTC''])]"
  by (simp add: get_timezones_def list_timezones_def storage_def sample_db_names)

end
